theory Spec2Isabelle
  imports Complex_Main "HOL-Library.Product_Lexorder"
begin

section \<open>The sequence matcher behind \<open>calculate_similarity\<close>\<close>

text \<open>
  \<open>calculate_similarity\<close> (eval-script-2.py, line 40) is
  \<^verbatim>\<open>SequenceMatcher(None, text1.lower(), text2.lower()).ratio()\<close>.
  \<open>SequenceMatcher\<close> is the class of Python's standard module \<open>difflib\<close>; the
  definitions of this section follow its methods \<open>__chain_b\<close>, \<open>find_longest_match\<close>,
  \<open>get_matching_blocks\<close> and \<open>ratio\<close> for the call made here: \<open>isjunk\<close> is \<open>None\<close> and
  \<open>autojunk\<close> keeps its default \<open>True\<close>. Sequences are lists over any element type,
  indices and sizes are natural numbers, the float result is a real number.
\<close>

type_synonym 'a b2j_map = "'a \<rightharpoonup> nat list"

text \<open>\<^verbatim>\<open>for i, elt in enumerate(b): indices = b2j.setdefault(elt, []); indices.append(i)\<close>\<close>

definition b2j_add :: "nat \<times> 'a \<Rightarrow> 'a b2j_map \<Rightarrow> 'a b2j_map" where
  "b2j_add p b2j =
     (case p of (i, elt) \<Rightarrow>
        b2j(elt \<mapsto> (case b2j elt of None \<Rightarrow> [] | Some indices \<Rightarrow> indices) @ [i]))"

definition b2j_build :: "'a list \<Rightarrow> 'a b2j_map" where
  "b2j_build b = fold b2j_add (enumerate 0 b) Map.empty"

text \<open>
  With \<open>isjunk = None\<close> the junk set stays empty. With \<open>autojunk\<close> and \<open>n >= 200\<close>, every
  element that occurs more than \<open>n // 100 + 1\<close> times is "popular" and is deleted from
  \<open>b2j\<close>.
\<close>

definition bjunk :: "'a list \<Rightarrow> 'a set" where
  "bjunk b = {}"

definition isbjunk :: "'a list \<Rightarrow> 'a \<Rightarrow> bool" where
  "isbjunk b x = (x \<in> bjunk b)"

definition chain_b :: "'a list \<Rightarrow> 'a b2j_map" where
  "chain_b b =
     (let b2j = b2j_build b; n = length b in
      if n \<ge> 200 then
        (let ntest = n div 100 + 1 in
         (\<lambda>elt. case b2j elt of
                   None \<Rightarrow> None
                 | Some idxs \<Rightarrow> if length idxs > ntest then None else Some idxs))
      else b2j)"

text \<open>\<open>b2j.get(elt, nothing)\<close> with \<open>nothing = []\<close>.\<close>

definition b2j_get :: "'a b2j_map \<Rightarrow> 'a \<Rightarrow> nat list" where
  "b2j_get b2j elt = (case b2j elt of None \<Rightarrow> [] | Some idxs \<Rightarrow> idxs)"

text \<open>
  \<open>j2lenget(j-1, 0)\<close>: the key \<open>-1\<close> is never stored, so \<open>j = 0\<close> reads the default.
\<close>

definition j2lenget :: "(nat \<rightharpoonup> nat) \<Rightarrow> nat \<Rightarrow> nat" where
  "j2lenget j2len j =
     (if j = 0 then 0 else (case j2len (j - 1) of None \<Rightarrow> 0 | Some v \<Rightarrow> v))"

type_synonym match = "nat \<times> nat \<times> nat"

text \<open>
  The inner loop of \<open>find_longest_match\<close> over the positions \<open>j\<close> of \<open>a[i]\<close> in \<open>b\<close>,
  with its \<open>continue\<close> and \<open>break\<close>. The state is \<open>(newj2len, besti, bestj, bestsize)\<close>.
  \<open>i-k+1\<close> is written \<open>i + 1 - k\<close>: \<open>k\<close> never exceeds \<open>i + 1\<close>.
\<close>

fun inner_loop ::
  "nat \<Rightarrow> nat \<Rightarrow> nat \<Rightarrow> (nat \<rightharpoonup> nat) \<Rightarrow> nat list \<Rightarrow> (nat \<rightharpoonup> nat) \<times> match
     \<Rightarrow> (nat \<rightharpoonup> nat) \<times> match" where
  "inner_loop i blo bhi j2len [] st = st"
| "inner_loop i blo bhi j2len (j # js) (newj2len, besti, bestj, bestsize) =
     (if j < blo then inner_loop i blo bhi j2len js (newj2len, besti, bestj, bestsize)
      else if j \<ge> bhi then (newj2len, besti, bestj, bestsize)
      else
        (let k = j2lenget j2len j + 1 in
         inner_loop i blo bhi j2len js
           (newj2len(j \<mapsto> k),
            if k > bestsize then (i + 1 - k, j + 1 - k, k) else (besti, bestj, bestsize))))"

text \<open>One pass of the outer loop \<open>for i in range(alo, ahi)\<close>; the state is \<open>(j2len, best)\<close>.\<close>

definition outer_step ::
  "'a list \<Rightarrow> 'a b2j_map \<Rightarrow> nat \<Rightarrow> nat \<Rightarrow> nat \<Rightarrow> (nat \<rightharpoonup> nat) \<times> match
     \<Rightarrow> (nat \<rightharpoonup> nat) \<times> match" where
  "outer_step a b2j blo bhi i st =
     (case st of (j2len, best) \<Rightarrow>
        inner_loop i blo bhi j2len (b2j_get b2j (a ! i)) (Map.empty, best))"

definition outer_loop ::
  "'a list \<Rightarrow> 'a b2j_map \<Rightarrow> nat \<Rightarrow> nat \<Rightarrow> nat \<Rightarrow> nat \<Rightarrow> (nat \<rightharpoonup> nat) \<times> match" where
  "outer_loop a b2j alo ahi blo bhi =
     fold (outer_step a b2j blo bhi) [alo..<ahi] (Map.empty, (alo, blo, 0))"

text \<open>
  The four \<open>while\<close> loops that extend the best match to the left and to the right. The
  first two take elements that are not junk, the last two elements that are junk; the
  test on \<open>isbjunk\<close> is the parameter \<open>want\<close>.
\<close>

function extend_left ::
  "'a list \<Rightarrow> 'a list \<Rightarrow> ('a \<Rightarrow> bool) \<Rightarrow> nat \<Rightarrow> nat \<Rightarrow> match \<Rightarrow> match" where
  "extend_left a b want alo blo (besti, bestj, bestsize) =
     (if besti > alo \<and> bestj > blo \<and> want (b ! (bestj - 1))
         \<and> a ! (besti - 1) = b ! (bestj - 1)
      then extend_left a b want alo blo (besti - 1, bestj - 1, bestsize + 1)
      else (besti, bestj, bestsize))"
  by pat_completeness auto
termination
  by (relation "measure (\<lambda>(a, b, want, alo, blo, besti, bestj, bestsize). besti)") auto

function extend_right ::
  "'a list \<Rightarrow> 'a list \<Rightarrow> ('a \<Rightarrow> bool) \<Rightarrow> nat \<Rightarrow> nat \<Rightarrow> match \<Rightarrow> match" where
  "extend_right a b want ahi bhi (besti, bestj, bestsize) =
     (if besti + bestsize < ahi \<and> bestj + bestsize < bhi \<and> want (b ! (bestj + bestsize))
         \<and> a ! (besti + bestsize) = b ! (bestj + bestsize)
      then extend_right a b want ahi bhi (besti, bestj, bestsize + 1)
      else (besti, bestj, bestsize))"
  by pat_completeness auto
termination
  by (relation "measure (\<lambda>(a, b, want, ahi, bhi, besti, bestj, bestsize). ahi - (besti + bestsize))")
     auto

declare extend_left.simps [simp del]
declare extend_right.simps [simp del]

definition find_longest_match ::
  "'a list \<Rightarrow> 'a list \<Rightarrow> 'a b2j_map \<Rightarrow> nat \<Rightarrow> nat \<Rightarrow> nat \<Rightarrow> nat \<Rightarrow> match" where
  "find_longest_match a b b2j alo ahi blo bhi =
     (let best = snd (outer_loop a b2j alo ahi blo bhi);
          best = extend_left a b (\<lambda>x. \<not> isbjunk b x) alo blo best;
          best = extend_right a b (\<lambda>x. \<not> isbjunk b x) ahi bhi best;
          best = extend_left a b (isbjunk b) alo blo best;
          best = extend_right a b (isbjunk b) ahi bhi best
      in best)"

subsection \<open>The match found lies inside the window\<close>

text \<open>
  The block returned for the window \<open>a[alo:ahi]\<close> starts at or after \<open>alo\<close> and ends at or
  before \<open>ahi\<close>. This is what makes the loop of \<open>get_matching_blocks\<close> terminate: every
  window it pushes is strictly smaller than the one it popped.
\<close>

lemma inner_loop_range:
  assumes "\<forall>j. j2lenget j2len j \<le> c" "alo + c \<le> i"
    "\<forall>j v. newj2len j = Some v \<longrightarrow> v \<le> c + 1" "alo \<le> besti" "besti + bestsize \<le> i + 1"
    "inner_loop i blo bhi j2len js (newj2len, besti, bestj, bestsize) = (n', bi', bj', bs')"
  shows "(\<forall>j v. n' j = Some v \<longrightarrow> v \<le> c + 1) \<and> alo \<le> bi' \<and> bi' + bs' \<le> i + 1"
  using assms
proof (induction js arbitrary: newj2len besti bestj bestsize)
  case Nil
  then show ?case by simp
next
  case (Cons j js)
  show ?case
  proof (cases "j < blo")
    case True
    with Cons.prems have "inner_loop i blo bhi j2len js (newj2len, besti, bestj, bestsize) = (n', bi', bj', bs')"
      by simp
    from Cons.IH[OF Cons.prems(1-5) this] show ?thesis .
  next
    case nlo: False
    show ?thesis
    proof (cases "j \<ge> bhi")
      case True
      with nlo Cons.prems show ?thesis by auto
    next
      case False
      define k where "k = j2lenget j2len j + 1"
      have kc: "k \<le> c + 1" using Cons.prems(1) by (simp add: k_def)
      show ?thesis
      proof (cases "k > bestsize")
        case True
        with nlo False Cons.prems(6)
        have run: "inner_loop i blo bhi j2len js (newj2len(j \<mapsto> k), i + 1 - k, j + 1 - k, k) = (n', bi', bj', bs')"
          by (simp add: k_def Let_def)
        have a: "\<forall>j' v. (newj2len(j \<mapsto> k)) j' = Some v \<longrightarrow> v \<le> c + 1"
          using Cons.prems(3) kc by auto
        have b: "alo \<le> i + 1 - k" using kc Cons.prems(2) by arith
        have c: "i + 1 - k + k \<le> i + 1" using kc Cons.prems(2) by arith
        from Cons.IH[OF Cons.prems(1,2) a b c run] show ?thesis .
      next
        case nb: False
        with nlo False Cons.prems(6)
        have run: "inner_loop i blo bhi j2len js (newj2len(j \<mapsto> k), besti, bestj, bestsize) = (n', bi', bj', bs')"
          by (simp add: k_def Let_def)
        have a: "\<forall>j' v. (newj2len(j \<mapsto> k)) j' = Some v \<longrightarrow> v \<le> c + 1"
          using Cons.prems(3) kc by auto
        from Cons.IH[OF Cons.prems(1,2) a Cons.prems(4,5) run] show ?thesis .
      qed
    qed
  qed
qed

lemma outer_loop_range:
  assumes "alo \<le> ahi"
  shows "case outer_loop a b2j alo ahi blo bhi of (j2len, bi, bj, bs) \<Rightarrow>
           (\<forall>j v. j2len j = Some v \<longrightarrow> v \<le> ahi - alo) \<and> alo \<le> bi \<and> bi + bs \<le> ahi"
  using assms
proof (induction rule: dec_induct)
  case base
  show ?case by (simp add: outer_loop_def)
next
  case (step n)
  obtain j2len bi bj bs where old: "outer_loop a b2j alo n blo bhi = (j2len, bi, bj, bs)"
    by (metis prod_cases4)
  with step.IH have inv: "\<forall>j v. j2len j = Some v \<longrightarrow> v \<le> n - alo" "alo \<le> bi" "bi + bs \<le> n"
    by auto
  obtain n' bi' bj' bs' where new:
    "inner_loop n blo bhi j2len (b2j_get b2j (a ! n)) (Map.empty, bi, bj, bs) = (n', bi', bj', bs')"
    by (metis prod_cases4)
  have unfold: "outer_loop a b2j alo (Suc n) blo bhi = (n', bi', bj', bs')"
    using step.hyps(1) old new by (simp add: outer_loop_def outer_step_def)
  have g: "\<forall>j. j2lenget j2len j \<le> n - alo"
    using inv(1) by (auto simp: j2lenget_def split: option.splits)
  have "(\<forall>j v. n' j = Some v \<longrightarrow> v \<le> n - alo + 1) \<and> alo \<le> bi' \<and> bi' + bs' \<le> n + 1"
    by (rule inner_loop_range [OF g _ _ inv(2) _ new]) (use step.hyps inv in auto)
  with step.hyps show ?case by (auto simp: unfold Suc_diff_le)
qed

lemma extend_left_range:
  assumes "extend_left a b want alo blo (bi, bj, bs) = (bi', bj', bs')" "alo \<le> bi"
  shows "alo \<le> bi' \<and> bi' + bs' = bi + bs"
  using assms
proof (induction a b want alo blo "(bi, bj, bs)" arbitrary: bi bj bs rule: extend_left.induct)
  case (1 a b want alo blo besti bestj bestsize)
  show ?case
  proof (cases "besti > alo \<and> bestj > blo \<and> want (b ! (bestj - 1)) \<and> a ! (besti - 1) = b ! (bestj - 1)")
    case True
    with "1.prems" have "extend_left a b want alo blo (besti - 1, bestj - 1, bestsize + 1) = (bi', bj', bs')"
      by (simp add: extend_left.simps [of a b want alo blo besti bestj bestsize])
    from "1.hyps"[OF True this] True show ?thesis by auto
  next
    case False
    with "1.prems" show ?thesis
      by (auto simp: extend_left.simps [of a b want alo blo besti bestj bestsize])
  qed
qed

lemma extend_right_range:
  assumes "extend_right a b want ahi bhi (bi, bj, bs) = (bi', bj', bs')" "bi + bs \<le> ahi"
  shows "bi' = bi \<and> bi' + bs' \<le> ahi"
  using assms
proof (induction a b want ahi bhi "(bi, bj, bs)" arbitrary: bi bj bs rule: extend_right.induct)
  case (1 a b want ahi bhi besti bestj bestsize)
  show ?case
  proof (cases "besti + bestsize < ahi \<and> bestj + bestsize < bhi \<and> want (b ! (bestj + bestsize))
         \<and> a ! (besti + bestsize) = b ! (bestj + bestsize)")
    case True
    with "1.prems" have "extend_right a b want ahi bhi (besti, bestj, bestsize + 1) = (bi', bj', bs')"
      by (simp add: extend_right.simps [of a b want ahi bhi besti bestj bestsize])
    from "1.hyps"[OF True this] True show ?thesis by auto
  next
    case False
    with "1.prems" show ?thesis
      by (auto simp: extend_right.simps [of a b want ahi bhi besti bestj bestsize])
  qed
qed

lemma find_longest_match_range:
  assumes "find_longest_match a b b2j alo ahi blo bhi = (i, j, k)" "alo \<le> ahi"
  shows "alo \<le> i \<and> i + k \<le> ahi"
proof -
  obtain j2len b0 where o: "outer_loop a b2j alo ahi blo bhi = (j2len, b0)" by (cases "outer_loop a b2j alo ahi blo bhi")
  obtain i0 j0 k0 where b0: "b0 = (i0, j0, k0)" by (cases b0)
  from outer_loop_range[OF assms(2), of a b2j blo bhi] o b0 have r0: "alo \<le> i0" "i0 + k0 \<le> ahi" by auto
  obtain i1 j1 k1 where e1: "extend_left a b (\<lambda>x. \<not> isbjunk b x) alo blo (i0, j0, k0) = (i1, j1, k1)"
    by (metis prod_cases3)
  from extend_left_range[OF e1 r0(1)] r0 have r1: "alo \<le> i1" "i1 + k1 \<le> ahi" by auto
  obtain i2 j2 k2 where e2: "extend_right a b (\<lambda>x. \<not> isbjunk b x) ahi bhi (i1, j1, k1) = (i2, j2, k2)"
    by (metis prod_cases3)
  from extend_right_range[OF e2 r1(2)] r1 have r2: "alo \<le> i2" "i2 + k2 \<le> ahi" by auto
  obtain i3 j3 k3 where e3: "extend_left a b (isbjunk b) alo blo (i2, j2, k2) = (i3, j3, k3)"
    by (metis prod_cases3)
  from extend_left_range[OF e3 r2(1)] r2 have r3: "alo \<le> i3" "i3 + k3 \<le> ahi" by auto
  obtain i4 j4 k4 where e4: "extend_right a b (isbjunk b) ahi bhi (i3, j3, k3) = (i4, j4, k4)"
    by (metis prod_cases3)
  from extend_right_range[OF e4 r3(2)] r3 have r4: "alo \<le> i4" "i4 + k4 \<le> ahi" by auto
  have "find_longest_match a b b2j alo ahi blo bhi = (i4, j4, k4)"
    by (simp add: find_longest_match_def o b0 e1 e2 e3 e4)
  with assms(1) r4 show ?thesis by simp
qed

lemma find_longest_match_empty_range:
  assumes "\<not> alo < ahi"
  shows "find_longest_match a b b2j alo ahi blo bhi = (alo, blo, 0)"
  using assms
  by (simp add: find_longest_match_def outer_loop_def extend_left.simps [of _ _ _ alo blo alo blo 0]
      extend_right.simps [of _ _ _ ahi bhi alo blo 0])

lemma blocks_loop_decreases:
  assumes "(i, y) = find_longest_match a b b2j alo ahi blo bhi" "(j, k) = y" "k \<noteq> 0"
  shows "alo \<le> i \<and> i + k \<le> ahi"
proof -
  from assms have eq: "find_longest_match a b b2j alo ahi blo bhi = (i, j, k)" by simp
  have "alo < ahi"
  proof (rule ccontr)
    assume "\<not> alo < ahi"
    from find_longest_match_empty_range[OF this, of a b b2j blo bhi] eq assms(3) show False by simp
  qed
  with find_longest_match_range[OF eq] show ?thesis by simp
qed

text \<open>
  The loop of \<open>get_matching_blocks\<close>. The Python list \<open>queue\<close> is used as a stack
  (\<open>append\<close> and \<open>pop\<close> at its end); here the head of the list is the top of the stack.
\<close>

function blocks_loop ::
  "'a list \<Rightarrow> 'a list \<Rightarrow> 'a b2j_map \<Rightarrow> (nat \<times> nat \<times> nat \<times> nat) list \<Rightarrow> match list
     \<Rightarrow> match list" where
  "blocks_loop a b b2j [] matching_blocks = matching_blocks"
| "blocks_loop a b b2j ((alo, ahi, blo, bhi) # queue) matching_blocks =
     (case find_longest_match a b b2j alo ahi blo bhi of (i, j, k) \<Rightarrow>
        if k \<noteq> 0 then
          blocks_loop a b b2j
            ((if i + k < ahi \<and> j + k < bhi then [(i + k, ahi, j + k, bhi)] else []) @
             (if alo < i \<and> blo < j then [(alo, i, blo, j)] else []) @ queue)
            (matching_blocks @ [(i, j, k)])
        else blocks_loop a b b2j queue matching_blocks)"
  by pat_completeness auto
termination
proof (relation "measure (\<lambda>(a, b, b2j, queue, mb).
          sum_list (map (\<lambda>(alo, ahi, blo, bhi). 2 * (ahi - alo) + 1) queue))", goal_cases)
  case 1
  show ?case by simp
next
  case (2 a b b2j alo ahi blo bhi queue matching_blocks i y j k)
  from blocks_loop_decreases[OF 2] 2(3) show ?case by auto
next
  case 3
  show ?case by simp
qed

declare blocks_loop.simps [simp del]

text \<open>
  \<open>matching_blocks.sort()\<close> orders the triples lexicographically, as Python compares
  tuples. The loop after it merges adjacent blocks; its state is \<open>(i1, j1, k1)\<close> and the
  list \<open>non_adjacent\<close>.
\<close>

fun collapse :: "match \<Rightarrow> match list \<Rightarrow> match list \<Rightarrow> match list" where
  "collapse (i1, j1, k1) [] non_adjacent =
     (if k1 \<noteq> 0 then non_adjacent @ [(i1, j1, k1)] else non_adjacent)"
| "collapse (i1, j1, k1) ((i2, j2, k2) # rest) non_adjacent =
     (if i1 + k1 = i2 \<and> j1 + k1 = j2 then collapse (i1, j1, k1 + k2) rest non_adjacent
      else collapse (i2, j2, k2) rest
             (if k1 \<noteq> 0 then non_adjacent @ [(i1, j1, k1)] else non_adjacent))"

definition get_matching_blocks :: "'a list \<Rightarrow> 'a list \<Rightarrow> match list" where
  "get_matching_blocks a b =
     (let la = length a; lb = length b;
          matching_blocks = blocks_loop a b (chain_b b) [(0, la, 0, lb)] [];
          matching_blocks = sort matching_blocks;
          non_adjacent = collapse (0, 0, 0) matching_blocks []
      in non_adjacent @ [(la, lb, 0)])"

text \<open>\<open>_calculate_ratio\<close> and \<open>ratio\<close>: \<open>2.0 * matches / length\<close>, and \<open>1.0\<close> for length 0.\<close>

definition calculate_ratio :: "nat \<Rightarrow> nat \<Rightarrow> real" where
  "calculate_ratio matches len = (if len \<noteq> 0 then 2 * real matches / real len else 1)"

definition ratio :: "'a list \<Rightarrow> 'a list \<Rightarrow> real" where
  "ratio a b =
     (let matches = sum_list (map (\<lambda>(i, j, k). k) (get_matching_blocks a b))
      in calculate_ratio matches (length a + length b))"

section \<open>Text similarity primitives of eval-script-2.py\<close>

text \<open>
  Strings are lists of 8-bit characters, so the model covers ASCII text: \<open>str.lower()\<close>
  maps \<open>A\<close>..\<open>Z\<close> to \<open>a\<close>..\<open>z\<close> and leaves every other character as it is.
  Python floats are real numbers here: the quotients and comparisons of the program are
  taken exactly, without rounding.
\<close>

definition lower_char :: "char \<Rightarrow> char" where
  "lower_char c =
     (case map_of (zip ''ABCDEFGHIJKLMNOPQRSTUVWXYZ'' ''abcdefghijklmnopqrstuvwxyz'') c of
        Some l \<Rightarrow> l
      | None \<Rightarrow> c)"

definition lower :: "string \<Rightarrow> string" where
  "lower s = map lower_char s"

text \<open>\<open>calculate_similarity\<close>, lines 38-40.\<close>

definition calculate_similarity :: "string \<Rightarrow> string \<Rightarrow> real" where
  "calculate_similarity text1 text2 = ratio (lower text1) (lower text2)"

datatype error = ZeroDivisionError | KeyError | ValueError

text \<open>
  Modelled from the spec: \<open>CountVectorizer(lowercase=True, token_pattern=r'(?u)\b\w+\b')\<close>
  and its \<open>fit_transform\<close> are library code that is not part of the repository. Section
  4.1 of the specification describes them: lowercase, tokenize on word boundaries
  (\<open>\w+\<close>), build term-frequency vectors over the token vocabulary of the two-string
  corpus; a corpus without any token (empty vocabulary) is a vectorization error. A
  token is a maximal run of word characters (letters, digits, underscore).
\<close>

definition is_word_char :: "char \<Rightarrow> bool" where
  "is_word_char c \<longleftrightarrow>
     c \<in> set (''abcdefghijklmnopqrstuvwxyz'' @ ''ABCDEFGHIJKLMNOPQRSTUVWXYZ'' @ ''0123456789_'')"

fun findall_words :: "string \<Rightarrow> string \<Rightarrow> string list" where
  "findall_words cur [] = (if cur = [] then [] else [cur])"
| "findall_words cur (c # cs) =
     (if is_word_char c then findall_words (cur @ [c]) cs
      else (if cur = [] then [] else [cur]) @ findall_words [] cs)"

definition tokenize :: "string \<Rightarrow> string list" where
  "tokenize doc = findall_words [] (lower doc)"

definition fit_transform :: "string list \<Rightarrow> error + nat list list" where
  "fit_transform raw_documents =
     (let docs = map tokenize raw_documents;
          vocabulary = remdups (concat docs)
      in if vocabulary = [] then Inl ValueError
         else Inr (map (\<lambda>doc. map (\<lambda>feature. count_list doc feature) vocabulary) docs))"

text \<open>
  Modelled from the spec: \<open>cosine_similarity\<close> is library code that is not part of the
  repository. Section 4.1 of the specification: the cosine similarity of the two count
  vectors, where a zero vector gives 0.0. Each row is divided by its Euclidean norm (a
  row of norm 0 is left as it is) and the entry \<open>[0][1]\<close> of the result is the inner
  product of the two normalised rows.
\<close>

definition l2_normalize :: "real list \<Rightarrow> real list" where
  "l2_normalize row =
     (let s = sum_list (map (\<lambda>x. x * x) row) in
      if s = 0 then row else map (\<lambda>x. x / sqrt s) row)"

definition cosine_similarity_0_1 :: "nat list list \<Rightarrow> real" where
  "cosine_similarity_0_1 vectors =
     (let x = l2_normalize (map real (vectors ! 0));
          y = l2_normalize (map real (vectors ! 1))
      in sum_list (map2 (*) x y))"

text \<open>
  \<open>calculate_cosine_similarity\<close>, lines 43-56. \<open>cosine_try\<close> is the body of the \<open>try\<close>
  block, whose exceptions are values; the bare \<open>except\<close> maps every one of them to 0.0.
\<close>

definition cosine_try :: "string \<Rightarrow> string \<Rightarrow> error + real" where
  "cosine_try text1 text2 =
     (case fit_transform [text1, text2] of
        Inl e \<Rightarrow> Inl e
      | Inr vectors \<Rightarrow> Inr (cosine_similarity_0_1 vectors))"

definition calculate_cosine_similarity :: "string \<Rightarrow> string \<Rightarrow> real" where
  "calculate_cosine_similarity text1 text2 =
     (let text1 = lower text1; text2 = lower text2 in
      case cosine_try text1 text2 of Inl e \<Rightarrow> 0 | Inr similarity \<Rightarrow> similarity)"

section \<open>Field comparators\<close>

text \<open>
  The three comparators return dictionaries with fixed keys; each shape is a constructor
  of \<open>verdict\<close>, and a key is a selector of the constructors that have it. There is no
  \<open>exact_match\<close> in a semantic verdict.
\<close>

datatype verdict =
    Exact_Verdict (exact_match: int) (ground_truth: string) (prediction: string)
  | Ner_Verdict (exact_match: int) (near_match: int) (similarity: real)
      (ground_truth: string) (prediction: string)
  | Semantic_Verdict (similarity: real) (meets_threshold: int)
      (ground_truth: string) (prediction: string)

definition evaluate_exact_field :: "string \<Rightarrow> string \<Rightarrow> verdict" where
  "evaluate_exact_field gt pred =
     (let is_match = (lower gt = lower pred) in
      Exact_Verdict (if is_match then 1 else 0) gt pred)"

definition evaluate_ner_field :: "string \<Rightarrow> string \<Rightarrow> verdict" where
  "evaluate_ner_field gt pred =
     (let similarity = calculate_similarity gt pred in
      Ner_Verdict (if lower gt = lower pred then 1 else 0)
        (if similarity > 0.9 then 1 else 0) similarity gt pred)"

definition evaluate_semantic_field :: "string \<Rightarrow> string \<Rightarrow> verdict" where
  "evaluate_semantic_field gt pred =
     (let similarity = calculate_cosine_similarity gt pred in
      Semantic_Verdict similarity (if similarity \<ge> 0.5 then 1 else 0) gt pred)"

text \<open>\<open>calculate_f1_score\<close>, lines 90-94.\<close>

definition calculate_f1_score :: "real \<Rightarrow> real \<Rightarrow> real" where
  "calculate_f1_score precision recall =
     (if precision + recall = 0 then 0
      else 2 * (precision * recall) / (precision + recall))"

section \<open>The dataset evaluator\<close>

text \<open>
  \<open>FIELD_DEFINITIONS\<close>, lines 16-26: a dictionary literal, kept as an association list
  in the order of the literal (the order in which Python iterates it).
\<close>

record field_definition =
  field_type :: string
  is_identifier :: bool
  evaluation :: string

definition FIELD_DEFINITIONS :: "(string \<times> field_definition) list" where
  "FIELD_DEFINITIONS =
     [(''Contract Address'',
         \<lparr>field_type = ''rich_address'', is_identifier = True, evaluation = ''exact''\<rparr>),
      (''Public Name Tag'',
         \<lparr>field_type = ''text'', is_identifier = True, evaluation = ''ner''\<rparr>),
      (''Project Name'',
         \<lparr>field_type = ''text'', is_identifier = True, evaluation = ''ner''\<rparr>),
      (''UI/Website Link'',
         \<lparr>field_type = ''link'', is_identifier = True, evaluation = ''exact''\<rparr>),
      (''Public Note'',
         \<lparr>field_type = ''text'', is_identifier = False, evaluation = ''semantic''\<rparr>)]"

text \<open>A record of the dataset is a dictionary from field names to strings.\<close>

type_synonym entry = "string \<rightharpoonup> string"

text \<open>\<open>entry.get(field, "")\<close>\<close>

definition get_field :: "entry \<Rightarrow> string \<Rightarrow> string" where
  "get_field e field = (case e field of None \<Rightarrow> [] | Some v \<Rightarrow> v)"

text \<open>
  The accumulators \<open>{"exact": 0, "near": 0, "total": 0}\<close>, one per field.
  \<open>field_metrics\<close> is created with the keys of \<open>FIELD_DEFINITIONS\<close> and no key is added
  or deleted afterwards; it is an association list in that order, and
  \<open>field_metrics[field][key] += v\<close> changes the accumulator stored under \<open>field\<close>.
\<close>

record metrics =
  exact :: int
  near :: int
  total :: int

type_synonym field_metrics = "(string \<times> metrics) list"

definition update_metrics :: "string \<Rightarrow> (metrics \<Rightarrow> metrics) \<Rightarrow> field_metrics \<Rightarrow> field_metrics" where
  "update_metrics field f fm = map (\<lambda>(name, m). if name = field then (name, f m) else (name, m)) fm"

type_synonym entry_results = "(string \<times> verdict) list"

text \<open>
  The variables of \<open>evaluate_dataset\<close>: its two parameters \<open>ground_truth\<close> and
  \<open>predictions\<close>, and the two locals that the main loop updates. (The parameter
  \<open>ground_truth\<close> is written \<open>ground_truth_seq\<close> below, the plain name being the key of
  a verdict.)
\<close>

record eval_state =
  s_ground_truth :: "entry list"
  s_predictions :: "entry list"
  s_results :: "entry_results list"
  s_field_metrics :: field_metrics

text \<open>
  The body of the inner loop \<open>for field, definition in FIELD_DEFINITIONS.items()\<close>, lines
  113-129, on the pair \<open>(field_metrics, entry_results)\<close>.
\<close>

definition process_field ::
  "entry \<Rightarrow> entry \<Rightarrow> string \<times> field_definition \<Rightarrow> field_metrics \<times> entry_results
     \<Rightarrow> field_metrics \<times> entry_results" where
  "process_field gt_entry pred_entry fd st =
     (case fd of (field, definition) \<Rightarrow>
      case st of (fm, entry_results) \<Rightarrow>
        (let gt_value = get_field gt_entry field;
             pred_value = get_field pred_entry field;
             (result, fm) =
               (if evaluation definition = ''exact'' then
                  (let result = evaluate_exact_field gt_value pred_value;
                       fm = update_metrics field (\<lambda>m. m\<lparr>exact := exact m + exact_match result\<rparr>) fm;
                       fm = update_metrics field (\<lambda>m. m\<lparr>near := near m + exact_match result\<rparr>) fm
                   in (result, fm))
                else if evaluation definition = ''ner'' then
                  (let result = evaluate_ner_field gt_value pred_value;
                       fm = update_metrics field (\<lambda>m. m\<lparr>exact := exact m + exact_match result\<rparr>) fm;
                       fm = update_metrics field (\<lambda>m. m\<lparr>near := near m + near_match result\<rparr>) fm
                   in (result, fm))
                else
                  (let result = evaluate_semantic_field gt_value pred_value;
                       fm = update_metrics field (\<lambda>m. m\<lparr>near := near m + meets_threshold result\<rparr>) fm
                   in (result, fm)));
             fm = update_metrics field (\<lambda>m. m\<lparr>total := total m + 1\<rparr>) fm
         in (fm, entry_results @ [(field, result)])))"

text \<open>
  The body of the main loop, lines 107-131, for one pair of \<open>zip(ground_truth,
  predictions)\<close>. The index of \<open>enumerate\<close> is used for logging only.
\<close>

definition process_entry :: "entry \<times> entry \<Rightarrow> eval_state \<Rightarrow> eval_state" where
  "process_entry p s =
     (case p of (gt_entry, pred_entry) \<Rightarrow>
      case fold (process_field gt_entry pred_entry) FIELD_DEFINITIONS (s_field_metrics s, []) of
        (fm, entry_results) \<Rightarrow>
          s\<lparr>s_field_metrics := fm, s_results := s_results s @ [entry_results]\<rparr>)"

definition init_state :: "entry list \<Rightarrow> entry list \<Rightarrow> eval_state" where
  "init_state ground_truth_seq predictions =
     \<lparr>s_ground_truth = ground_truth_seq, s_predictions = predictions, s_results = [],
      s_field_metrics = map (\<lambda>(field, definition). (field, \<lparr>exact = 0, near = 0, total = 0\<rparr>))
                          FIELD_DEFINITIONS\<rparr>"

definition main_loop :: "eval_state \<Rightarrow> eval_state" where
  "main_loop s = fold process_entry (zip (s_ground_truth s) (s_predictions s)) s"

text \<open>The state of \<open>evaluate_dataset\<close> when the main loop has ended (line 133).\<close>

definition evaluate_dataset_state :: "entry list \<Rightarrow> entry list \<Rightarrow> eval_state" where
  "evaluate_dataset_state ground_truth_seq predictions = main_loop (init_state ground_truth_seq predictions)"

text \<open>
  The aggregate pass, lines 136-154. \<open>/\<close> on two integers is true division and raises
  \<open>ZeroDivisionError\<close> for a zero divisor. \<open>precision\<close> and \<open>recall\<close> guard their
  division, \<open>exact_match_rate\<close> and \<open>semantic_similarity_rate\<close> do not.
\<close>

definition py_div :: "int \<Rightarrow> int \<Rightarrow> error + real" where
  "py_div x y = (if y = 0 then Inl ZeroDivisionError else Inr (real_of_int x / real_of_int y))"

definition precision_of :: "metrics \<Rightarrow> real" where
  "precision_of m = (if total m > 0 then real_of_int (exact m) / real_of_int (total m) else 0)"

definition recall_of :: "metrics \<Rightarrow> real" where
  "recall_of m = (if total m > 0 then real_of_int (near m) / real_of_int (total m) else 0)"

datatype aggregate =
    Match_Metrics (precision: real) (recall: real) (f1_score: real) (exact_match_rate: real)
  | Semantic_Metrics (semantic_similarity_rate: real)

fun aggregate_loop ::
  "field_metrics \<Rightarrow> (string \<times> aggregate) list \<Rightarrow> error + (string \<times> aggregate) list" where
  "aggregate_loop [] aggregate_results = Inr aggregate_results"
| "aggregate_loop ((field, m) # rest) aggregate_results =
     (case map_of FIELD_DEFINITIONS field of
        None \<Rightarrow> Inl KeyError
      | Some definition \<Rightarrow>
          if evaluation definition \<in> set [''exact'', ''ner''] then
            (let precision = precision_of m;
                 recall = recall_of m;
                 f1 = calculate_f1_score precision recall
             in case py_div (exact m) (total m) of
                  Inl e \<Rightarrow> Inl e
                | Inr rate \<Rightarrow>
                    aggregate_loop rest
                      (aggregate_results @ [(field, Match_Metrics precision recall f1 rate)]))
          else
            (case py_div (near m) (total m) of
               Inl e \<Rightarrow> Inl e
             | Inr rate \<Rightarrow>
                 aggregate_loop rest (aggregate_results @ [(field, Semantic_Metrics rate)])))"

record report =
  individual_results :: "entry_results list"
  aggregate_results :: "(string \<times> aggregate) list"

definition evaluate_dataset :: "entry list \<Rightarrow> entry list \<Rightarrow> error + report" where
  "evaluate_dataset ground_truth_seq predictions =
     (let s = evaluate_dataset_state ground_truth_seq predictions in
      case aggregate_loop (s_field_metrics s) [] of
        Inl e \<Rightarrow> Inl e
      | Inr agg \<Rightarrow> Inr \<lparr>individual_results = s_results s, aggregate_results = agg\<rparr>)"

section \<open>Auxiliary notions of the proofs\<close>

text \<open>
  The definitions of this section are not part of the program; the lemmas below are
  stated with them.
\<close>

text \<open>The positions of \<open>elt\<close> in \<open>b\<close>, in increasing order.\<close>

definition indices :: "'a list \<Rightarrow> 'a \<Rightarrow> nat list" where
  "indices b elt = filter (\<lambda>j. b ! j = elt) [0..<length b]"

text \<open>An element is kept in \<open>b2j\<close> when it occurs in \<open>b\<close> and is not popular.\<close>

definition kept :: "'a list \<Rightarrow> 'a \<Rightarrow> bool" where
  "kept b elt \<longleftrightarrow> chain_b b elt \<noteq> None"

text \<open>
  \<open>run P s i\<close> is the length of the longest block of elements satisfying \<open>P\<close> that ends
  just before position \<open>i\<close> of \<open>s\<close>.
\<close>

fun run :: "('a \<Rightarrow> bool) \<Rightarrow> 'a list \<Rightarrow> nat \<Rightarrow> nat" where
  "run P s 0 = 0"
| "run P s (Suc i) = (if P (s ! i) then run P s i + 1 else 0)"

text \<open>
  The invariant of the main loop of \<open>find_longest_match\<close> on two equal sequences \<open>s\<close>,
  before the pass for position \<open>i\<close>: no entry of \<open>j2len\<close> exceeds the entry on the
  diagonal or the run of kept elements that ends there, the entry on the diagonal is that
  run, \<open>bestsize\<close> is at least every run seen so far, and the best block lies on the
  diagonal.
\<close>

definition diag_inv :: "'a list \<Rightarrow> nat \<Rightarrow> (nat \<rightharpoonup> nat) \<times> match \<Rightarrow> bool" where
  "diag_inv s i st =
     (case st of (j2len, besti, bestj, bestsize) \<Rightarrow>
        (\<forall>j. j2lenget j2len j \<le> run (kept s) s j) \<and>
        (\<forall>j. j2lenget j2len j \<le> j2lenget j2len i) \<and>
        j2lenget j2len i = run (kept s) s i \<and>
        (\<forall>i'\<le>i. run (kept s) s i' \<le> bestsize) \<and>
        besti = bestj)"

text \<open>What one pass of the inner loop does to the accumulator of its field.\<close>

definition field_step :: "field_definition \<Rightarrow> string \<Rightarrow> string \<Rightarrow> metrics \<Rightarrow> metrics" where
  "field_step d gt pred m =
     (if evaluation d = ''exact'' then
        m\<lparr>exact := exact m + exact_match (evaluate_exact_field gt pred),
          near := near m + exact_match (evaluate_exact_field gt pred),
          total := total m + 1\<rparr>
      else if evaluation d = ''ner'' then
        m\<lparr>exact := exact m + exact_match (evaluate_ner_field gt pred),
          near := near m + near_match (evaluate_ner_field gt pred),
          total := total m + 1\<rparr>
      else
        m\<lparr>near := near m + meets_threshold (evaluate_semantic_field gt pred),
          total := total m + 1\<rparr>)"

text \<open>The verdict that the inner loop stores for a field.\<close>

definition field_verdict :: "field_definition \<Rightarrow> string \<Rightarrow> string \<Rightarrow> verdict" where
  "field_verdict d gt pred =
     (if evaluation d = ''exact'' then evaluate_exact_field gt pred
      else if evaluation d = ''ner'' then evaluate_ner_field gt pred
      else evaluate_semantic_field gt pred)"

text \<open>
  The invariant of the main loop after \<open>n\<close> record pairs: every field of the schema has an
  accumulator, its \<open>total\<close> is \<open>n\<close>, and \<open>exact \<le> near \<le> total\<close> for the strategies exact
  and ner.
\<close>

definition metrics_inv :: "nat \<Rightarrow> field_metrics \<Rightarrow> bool" where
  "metrics_inv n fm \<longleftrightarrow>
     (\<forall>(field, d) \<in> set FIELD_DEFINITIONS.
        \<exists>m. map_of fm field = Some m \<and> total m = int n \<and>
            (evaluation d \<in> {''exact'', ''ner''} \<longrightarrow> exact m \<le> near m \<and> near m \<le> total m))"

text \<open>The aggregate metric that the pass stores for a field, when it does not raise.\<close>

definition aggregate_of :: "field_definition \<Rightarrow> metrics \<Rightarrow> aggregate" where
  "aggregate_of d m =
     (if evaluation d \<in> {''exact'', ''ner''}
      then Match_Metrics (precision_of m) (recall_of m)
             (calculate_f1_score (precision_of m) (recall_of m))
             (real_of_int (exact m) / real_of_int (total m))
      else Semantic_Metrics (real_of_int (near m) / real_of_int (total m)))"

section \<open>Properties of the sequence matcher\<close>

text \<open>
  The matcher is reflexive: two equal sequences have ratio 1, also when \<open>autojunk\<close>
  removes popular elements. The main loop of \<open>find_longest_match\<close> then finds its best
  block on the diagonal (\<open>besti = bestj\<close>), and the two loops that follow extend it to
  the whole sequence. An empty sequence, and two sequences without a common element, give
  no matching block at all.
\<close>

lemma indices_snoc:
  "indices (b @ [x]) elt = indices b elt @ (if x = elt then [length b] else [])"
proof -
  have "filter (\<lambda>j. (b @ [x]) ! j = elt) [0..<length b] = filter (\<lambda>j. b ! j = elt) [0..<length b]"
    by (rule filter_cong) (auto simp: nth_append)
  then show ?thesis by (simp add: indices_def)
qed

lemma indices_empty_iff: "indices b elt = [] \<longleftrightarrow> elt \<notin> set b"
  by (auto simp: indices_def filter_empty_conv in_set_conv_nth)

lemma b2j_build_snoc: "b2j_build (b @ [x]) = b2j_add (length b, x) (b2j_build b)"
  by (simp add: b2j_build_def enumerate_append_eq)

lemma b2j_build_eq:
  "b2j_build b elt = (if elt \<in> set b then Some (indices b elt) else None)"
proof (induction b rule: rev_induct)
  case Nil
  show ?case by (simp add: b2j_build_def)
next
  case (snoc x b)
  show ?case
  proof (cases "elt = x")
    case True
    then show ?thesis
      using snoc.IH indices_empty_iff[of b x]
      by (auto simp: b2j_build_snoc b2j_add_def indices_snoc)
  next
    case False
    then show ?thesis
      using snoc.IH by (simp add: b2j_build_snoc b2j_add_def indices_snoc)
  qed
qed

lemma b2j_get_chain_b:
  "b2j_get (chain_b b) elt = (if kept b elt then indices b elt else [])"
  by (auto simp: b2j_get_def kept_def chain_b_def Let_def b2j_build_eq split: option.splits if_splits)

lemma sorted_indices: "sorted (indices b elt)"
  by (simp add: indices_def sorted_wrt_filter)

lemma set_indices: "set (indices b elt) = {j. j < length b \<and> b ! j = elt}"
  by (auto simp: indices_def)

lemma inner_loop_diagonal:
  assumes "sorted js" "\<forall>j\<in>set js. j < bhi"
    and A: "\<forall>j\<in>set js. j < i \<longrightarrow> j2lenget j2len j + 1 \<le> bestsize"
    and B: "\<forall>j\<in>set js. j2lenget j2len j \<le> j2lenget j2len i"
    and C: "i \<in> set js \<or> j2lenget j2len i + 1 \<le> bestsize"
    and D: "besti = bestj"
    and run: "inner_loop i 0 bhi j2len js (newj2len, besti, bestj, bestsize) = (n', bi', bj', bs')"
  shows "bi' = bj' \<and> bestsize \<le> bs' \<and> j2lenget j2len i + 1 \<le> bs'
         \<and> (\<forall>j. n' j = (if j \<in> set js then Some (j2lenget j2len j + 1) else newj2len j))"
  using assms
proof (induction js arbitrary: newj2len besti bestj bestsize)
  case Nil
  then show ?case by simp
next
  case (Cons j js)
  define k where "k = j2lenget j2len j + 1"
  have sorted: "sorted js" and ge: "\<forall>j'\<in>set js. j \<le> j'" and lt: "j < bhi" "\<forall>j\<in>set js. j < bhi"
    using Cons.prems(1,2) by auto
  have B': "\<forall>j\<in>set js. j2lenget j2len j \<le> j2lenget j2len i" using Cons.prems(4) by simp
  show ?case
  proof (cases "k > bestsize")
    case True
    have "\<not> j < i" using Cons.prems(3) True by (auto simp: k_def)
    moreover have "\<not> i < j"
    proof
      assume "i < j"
      with ge have "i \<notin> set (j # js)" by auto
      with Cons.prems(5) have "j2lenget j2len i + 1 \<le> bestsize" by simp
      moreover have "k \<le> j2lenget j2len i + 1" using Cons.prems(4) by (simp add: k_def)
      ultimately show False using True by simp
    qed
    ultimately have ji: "j = i" by simp
    from True lt Cons.prems(7)
    have run': "inner_loop i 0 bhi j2len js (newj2len(j \<mapsto> k), i + 1 - k, j + 1 - k, k) = (n', bi', bj', bs')"
      by (simp add: k_def Let_def)
    have A': "\<forall>j'\<in>set js. j' < i \<longrightarrow> j2lenget j2len j' + 1 \<le> k" using ge ji by auto
    have C': "i \<in> set js \<or> j2lenget j2len i + 1 \<le> k" using ji by (simp add: k_def)
    have D': "i + 1 - k = j + 1 - k" using ji by simp
    from Cons.IH[OF sorted lt(2) A' B' C' D' run'] True
    show ?thesis by (auto simp: k_def)
  next
    case False
    from False lt Cons.prems(7)
    have run': "inner_loop i 0 bhi j2len js (newj2len(j \<mapsto> k), besti, bestj, bestsize) = (n', bi', bj', bs')"
      by (simp add: k_def Let_def)
    have A': "\<forall>j'\<in>set js. j' < i \<longrightarrow> j2lenget j2len j' + 1 \<le> bestsize" using Cons.prems(3) by simp
    have C': "i \<in> set js \<or> j2lenget j2len i + 1 \<le> bestsize"
      using Cons.prems(5) False by (auto simp: k_def)
    from Cons.IH[OF sorted lt(2) A' B' C' Cons.prems(6) run']
    show ?thesis by (auto simp: k_def)
  qed
qed

lemma diag_inv_step:
  assumes inv: "diag_inv s i (j2len, besti, bestj, bestsize)" and i: "i < length s"
  shows "diag_inv s (Suc i) (outer_step s (chain_b s) 0 (length s) i (j2len, besti, bestj, bestsize))"
proof -
  let ?r = "run (kept s) s"
  from inv have V1: "\<forall>j. j2lenget j2len j \<le> ?r j"
    and V2: "\<forall>j. j2lenget j2len j \<le> j2lenget j2len i"
    and V3: "j2lenget j2len i = ?r i"
    and V4: "\<forall>i'\<le>i. ?r i' \<le> bestsize"
    and V5: "besti = bestj"
    by (auto simp: diag_inv_def)
  show ?thesis
  proof (cases "kept s (s ! i)")
    case False
    then have "outer_step s (chain_b s) 0 (length s) i (j2len, besti, bestj, bestsize)
                 = (Map.empty, besti, bestj, bestsize)"
      by (simp add: outer_step_def b2j_get_chain_b)
    moreover have "diag_inv s (Suc i) (Map.empty, besti, bestj, bestsize)"
      using False V4 V5 by (auto simp: diag_inv_def j2lenget_def le_Suc_eq)
    ultimately show ?thesis by simp
  next
    case True
    let ?js = "indices s (s ! i)"
    obtain n' bi' bj' bs' where res:
      "inner_loop i 0 (length s) j2len ?js (Map.empty, besti, bestj, bestsize) = (n', bi', bj', bs')"
      by (metis prod_cases4)
    have step: "outer_step s (chain_b s) 0 (length s) i (j2len, besti, bestj, bestsize) = (n', bi', bj', bs')"
      using True res by (simp add: outer_step_def b2j_get_chain_b)
    have keptj: "\<forall>j\<in>set ?js. kept s (s ! j)" using True by (simp add: set_indices)
    have A: "\<forall>j\<in>set ?js. j < i \<longrightarrow> j2lenget j2len j + 1 \<le> bestsize"
    proof (intro ballI impI)
      fix j assume j: "j \<in> set ?js" "j < i"
      have "Suc j \<le> i" using j by simp
      with V4 have "?r (Suc j) \<le> bestsize" by blast
      moreover have "?r (Suc j) = ?r j + 1" using keptj j by simp
      moreover have "j2lenget j2len j + 1 \<le> ?r j + 1" using V1 by simp
      ultimately show "j2lenget j2len j + 1 \<le> bestsize" by simp
    qed
    have B: "\<forall>j\<in>set ?js. j2lenget j2len j \<le> j2lenget j2len i" using V2 by simp
    have C: "i \<in> set ?js \<or> j2lenget j2len i + 1 \<le> bestsize" using i by (simp add: set_indices)
    have lt: "\<forall>j\<in>set ?js. j < length s" by (simp add: set_indices)
    from inner_loop_diagonal[OF sorted_indices lt A B C V5 res]
    have R: "bi' = bj'" "bestsize \<le> bs'" "j2lenget j2len i + 1 \<le> bs'"
      "\<And>j. n' j = (if j \<in> set ?js then Some (j2lenget j2len j + 1) else None)"
      by auto
    have iin: "i \<in> set ?js" using i by (simp add: set_indices)
    have get: "\<And>j. j2lenget n' (Suc j) = (if j \<in> set ?js then j2lenget j2len j + 1 else 0)"
      by (simp add: j2lenget_def R(4))
    have get0: "j2lenget n' 0 = 0" by (simp add: j2lenget_def)
    have W3: "j2lenget n' (Suc i) = ?r (Suc i)" using iin True V3 by (simp add: get)
    have W1: "j2lenget n' j \<le> ?r j" for j
    proof (cases j)
      case 0 then show ?thesis by (simp add: get0)
    next
      case (Suc j')
      then show ?thesis using V1 keptj by (auto simp: get)
    qed
    have W2: "j2lenget n' j \<le> j2lenget n' (Suc i)" for j
    proof (cases j)
      case 0 then show ?thesis by (simp add: get0)
    next
      case (Suc j')
      then show ?thesis using V2 iin by (auto simp: get)
    qed
    have W4: "\<forall>i'\<le>Suc i. ?r i' \<le> bs'"
    proof (intro allI impI)
      fix i' assume "i' \<le> Suc i"
      then consider "i' \<le> i" | "i' = Suc i" by (auto simp: le_Suc_eq)
      then show "?r i' \<le> bs'"
      proof cases
        case 1 with V4 R(2) show ?thesis using le_trans by blast
      next
        case 2 with R(3) V3 True show ?thesis by simp
      qed
    qed
    have "diag_inv s (Suc i) (n', bi', bj', bs')"
      unfolding diag_inv_def using W1 W2 W3 W4 R(1) by simp
    with step show ?thesis by simp
  qed
qed

lemma outer_loop_diag_inv:
  assumes "m \<le> length s"
  shows "diag_inv s m (outer_loop s (chain_b s) 0 m 0 (length s))"
  using assms
proof (induction m)
  case 0
  show ?case by (simp add: outer_loop_def diag_inv_def j2lenget_def)
next
  case (Suc m)
  obtain j2len bi bj bs where old: "outer_loop s (chain_b s) 0 m 0 (length s) = (j2len, bi, bj, bs)"
    by (metis prod_cases4)
  have "outer_loop s (chain_b s) 0 (Suc m) 0 (length s)
          = outer_step s (chain_b s) 0 (length s) m (j2len, bi, bj, bs)"
    using old by (simp add: outer_loop_def)
  moreover have "diag_inv s (Suc m) (outer_step s (chain_b s) 0 (length s) m (j2len, bi, bj, bs))"
    using Suc old by (intro diag_inv_step) auto
  ultimately show ?case by simp
qed

lemma extend_left_junk: "extend_left a b (isbjunk b) alo blo best = best"
  by (cases best) (simp add: extend_left.simps isbjunk_def bjunk_def)

lemma extend_right_junk: "extend_right a b (isbjunk b) ahi bhi best = best"
  by (cases best) (simp add: extend_right.simps isbjunk_def bjunk_def)

lemma extend_left_same:
  "d \<le> length s \<Longrightarrow> extend_left s s (\<lambda>x. \<not> isbjunk s x) 0 0 (d, d, k) = (0, 0, k + d)"
proof (induction d arbitrary: k)
  case 0
  show ?case by (simp add: extend_left.simps)
next
  case (Suc d)
  have "extend_left s s (\<lambda>x. \<not> isbjunk s x) 0 0 (Suc d, Suc d, k)
          = extend_left s s (\<lambda>x. \<not> isbjunk s x) 0 0 (d, d, k + 1)"
    by (simp add: extend_left.simps [of s s _ 0 0 "Suc d" "Suc d" k] isbjunk_def bjunk_def)
  with Suc show ?case by simp
qed

lemma extend_right_same:
  "k \<le> length s \<Longrightarrow>
     extend_right s s (\<lambda>x. \<not> isbjunk s x) (length s) (length s) (0, 0, k) = (0, 0, length s)"
proof (induction "length s - k" arbitrary: k)
  case 0
  then show ?case by (simp add: extend_right.simps)
next
  case (Suc m)
  then have lt: "k < length s" and m: "m = length s - (k + 1)" and le: "k + 1 \<le> length s" by auto
  have "extend_right s s (\<lambda>x. \<not> isbjunk s x) (length s) (length s) (0, 0, k)
          = extend_right s s (\<lambda>x. \<not> isbjunk s x) (length s) (length s) (0, 0, k + 1)"
    using lt by (simp add: extend_right.simps [of s s _ _ _ 0 0 k] isbjunk_def bjunk_def)
  with Suc.hyps(1)[OF m le] show ?case by simp
qed

lemma find_longest_match_same:
  "find_longest_match s s (chain_b s) 0 (length s) 0 (length s) = (0, 0, length s)"
proof -
  obtain j2len d d' k where o: "outer_loop s (chain_b s) 0 (length s) 0 (length s) = (j2len, d, d', k)"
    by (metis prod_cases4)
  from outer_loop_diag_inv[of "length s" s] o have dd: "d' = d" by (simp add: diag_inv_def)
  from outer_loop_range[of 0 "length s" s "chain_b s" 0 "length s"] o
  have le: "d + k \<le> length s" by simp
  then have "d \<le> length s" "k + d \<le> length s" by simp_all
  then show ?thesis
    by (simp add: find_longest_match_def o dd extend_left_junk extend_right_junk
        extend_left_same extend_right_same)
qed

lemma get_matching_blocks_same:
  "get_matching_blocks s s =
     (if s = [] then [(0, 0, 0)] else [(0, 0, length s), (length s, length s, 0)])"
  by (simp add: get_matching_blocks_def Let_def blocks_loop.simps find_longest_match_same)

lemma ratio_same: "ratio s s = 1"
  by (simp add: ratio_def get_matching_blocks_same calculate_ratio_def)

subsection \<open>An empty sequence\<close>

lemma inner_loop_empty_window:
  "\<not> blo < bhi \<Longrightarrow>
     snd (inner_loop i blo bhi j2len js (newj2len, besti, bestj, bestsize)) = (besti, bestj, bestsize)"
  by (induction js arbitrary: newj2len) auto

lemma outer_fold_empty_window:
  "\<not> blo < bhi \<Longrightarrow> snd (fold (outer_step a b2j blo bhi) xs (j2len, best)) = best"
proof (induction xs arbitrary: j2len)
  case Nil
  show ?case by simp
next
  case (Cons x xs)
  obtain besti bestj bestsize where best: "best = (besti, bestj, bestsize)" by (cases best)
  obtain n' where "outer_step a b2j blo bhi x (j2len, best) = (n', best)"
    using inner_loop_empty_window[OF Cons.prems, of x j2len "b2j_get b2j (a ! x)" Map.empty besti bestj bestsize]
    by (cases "outer_step a b2j blo bhi x (j2len, best)") (simp add: outer_step_def best)
  with Cons show ?case by simp
qed

lemma find_longest_match_empty_b_window:
  assumes "\<not> blo < bhi"
  shows "find_longest_match a b b2j alo ahi blo bhi = (alo, blo, 0)"
  using assms outer_fold_empty_window[OF assms, of a b2j "[alo..<ahi]" Map.empty "(alo, blo, 0)"]
  by (simp add: find_longest_match_def outer_loop_def extend_left.simps [of _ _ _ alo blo alo blo 0]
      extend_right.simps [of _ _ _ ahi bhi alo blo 0])

lemma get_matching_blocks_empty_b: "get_matching_blocks a [] = [(length a, 0, 0)]"
  by (simp add: get_matching_blocks_def Let_def blocks_loop.simps find_longest_match_empty_b_window)

lemma get_matching_blocks_empty_a: "get_matching_blocks [] b = [(0, length b, 0)]"
  by (simp add: get_matching_blocks_def Let_def blocks_loop.simps find_longest_match_empty_range)

lemma ratio_empty_b: "ratio a [] = (if a = [] then 1 else 0)"
  by (simp add: ratio_def get_matching_blocks_empty_b calculate_ratio_def)

lemma ratio_empty_a: "ratio [] b = (if b = [] then 1 else 0)"
  by (simp add: ratio_def get_matching_blocks_empty_a calculate_ratio_def)

subsection \<open>Sequences without a common element\<close>

lemma outer_fold_no_positions:
  "\<forall>i\<in>set xs. b2j_get b2j (a ! i) = [] \<Longrightarrow>
     snd (fold (outer_step a b2j blo bhi) xs (j2len, best)) = best"
  by (induction xs arbitrary: j2len) (simp_all add: outer_step_def)

lemma find_longest_match_disjoint:
  assumes "set a \<inter> set b = {}"
  shows "find_longest_match a b (chain_b b) 0 (length a) 0 (length b) = (0, 0, 0)"
proof -
  have "b2j_get (chain_b b) (a ! i) = []" if "i < length a" for i
  proof -
    from that assms have "a ! i \<notin> set b" using nth_mem by fastforce
    then show ?thesis by (simp add: b2j_get_chain_b indices_empty_iff)
  qed
  then have "\<forall>i\<in>set [0..<length a]. b2j_get (chain_b b) (a ! i) = []" by simp
  from outer_fold_no_positions[OF this, of 0 "length b" Map.empty "(0, 0, 0)"]
  have o: "snd (outer_loop a (chain_b b) 0 (length a) 0 (length b)) = (0, 0, 0)"
    by (simp add: outer_loop_def)
  have ne: "a ! 0 \<noteq> b ! 0" if "0 < length a" "0 < length b"
    using that assms nth_mem by fastforce
  then have r: "extend_right a b want (length a) (length b) (0, 0, 0) = (0, 0, 0)" for want
    by (auto simp: extend_right.simps [of a b want "length a" "length b" 0 0 0])
  show ?thesis
    by (simp add: find_longest_match_def o r extend_left.simps [of a b _ 0 0 0 0 0])
qed

lemma ratio_disjoint:
  assumes "set a \<inter> set b = {}"
  shows "ratio a b = (if a = [] \<and> b = [] then 1 else 0)"
  by (simp add: ratio_def get_matching_blocks_def Let_def blocks_loop.simps
      find_longest_match_disjoint[OF assms] calculate_ratio_def)

section \<open>Properties of the dataset evaluator\<close>

text \<open>
  Each pass of the inner loop changes the accumulator of its own field only, so a record
  pair applies \<open>field_step\<close> once to every accumulator. The invariant \<open>metrics_inv\<close> of the
  main loop follows, and with it the behaviour of the aggregate pass: it returns a report
  exactly when at least one pair was processed.
\<close>

lemma map_fst_update_metrics: "map fst (update_metrics field f fm) = map fst fm"
  by (induction fm) (auto simp: update_metrics_def)

lemma map_of_update_metrics:
  "map_of (update_metrics field f fm) name =
     (if name = field then map_option f (map_of fm name) else map_of fm name)"
  by (induction fm) (auto simp: update_metrics_def)

lemma process_field_results:
  "snd (process_field g p (field, d) (fm, er)) =
     er @ [(field, field_verdict d (get_field g field) (get_field p field))]"
  by (simp add: process_field_def field_verdict_def Let_def)

lemma process_field_keys: "map fst (fst (process_field g p (field, d) (fm, er))) = map fst fm"
  by (simp add: process_field_def Let_def map_fst_update_metrics)

lemma process_field_metrics:
  "map_of (fst (process_field g p (field, d) (fm, er))) name =
     (if name = field
      then map_option (field_step d (get_field g field) (get_field p field)) (map_of fm name)
      else map_of fm name)"
  by (cases "map_of fm field")
     (auto simp: process_field_def field_step_def Let_def map_of_update_metrics)

lemma fold_process_field_keys:
  "map fst (fst (fold (process_field g p) fds (fm, er))) = map fst fm"
proof (induction fds arbitrary: fm er)
  case Nil
  show ?case by simp
next
  case (Cons fd fds)
  obtain field d where fd: "fd = (field, d)" by (cases fd)
  obtain fm' er' where st: "process_field g p (field, d) (fm, er) = (fm', er')"
    by (cases "process_field g p (field, d) (fm, er)")
  have "map fst fm' = map fst fm" using process_field_keys[of g p field d fm er] st by simp
  with Cons.IH[of fm' er'] show ?case by (simp add: fd st)
qed

lemma fold_process_field_length:
  "length (snd (fold (process_field g p) fds (fm, er))) = length er + length fds"
proof (induction fds arbitrary: fm er)
  case Nil
  show ?case by simp
next
  case (Cons fd fds)
  obtain field d where fd: "fd = (field, d)" by (cases fd)
  obtain fm' er' where st: "process_field g p (field, d) (fm, er) = (fm', er')"
    by (cases "process_field g p (field, d) (fm, er)")
  have "length er' = length er + 1" using process_field_results[of g p field d fm er] st by simp
  with Cons.IH[of fm' er'] show ?case by (simp add: fd st)
qed

lemma fold_process_field_metrics:
  assumes "distinct (map fst fds)"
  shows "map_of (fst (fold (process_field g p) fds (fm, er))) name =
     (case map_of fds name of
        None \<Rightarrow> map_of fm name
      | Some d \<Rightarrow> map_option (field_step d (get_field g name) (get_field p name)) (map_of fm name))"
  using assms
proof (induction fds arbitrary: fm er)
  case Nil
  show ?case by simp
next
  case (Cons fd fds)
  obtain field d where fd: "fd = (field, d)" by (cases fd)
  obtain fm' er' where st: "process_field g p (field, d) (fm, er) = (fm', er')"
    by (cases "process_field g p (field, d) (fm, er)")
  have fm': "map_of fm' name =
     (if name = field
      then map_option (field_step d (get_field g field) (get_field p field)) (map_of fm name)
      else map_of fm name)"
    using process_field_metrics[of g p field d fm er name] st by simp
  have nf: "map_of fds field = None" using Cons.prems fd by (simp add: map_of_eq_None_iff)
  have "distinct (map fst fds)" using Cons.prems by simp
  from Cons.IH[OF this, of fm' er'] fm' nf show ?case by (auto simp: fd st split: option.splits)
qed

lemma distinct_FIELD_DEFINITIONS: "distinct (map fst FIELD_DEFINITIONS)"
  by (simp add: FIELD_DEFINITIONS_def)

lemma process_entry_alt:
  "process_entry (g, p) s =
     s\<lparr>s_field_metrics := fst (fold (process_field g p) FIELD_DEFINITIONS (s_field_metrics s, [])),
       s_results := s_results s
          @ [snd (fold (process_field g p) FIELD_DEFINITIONS (s_field_metrics s, []))]\<rparr>"
  by (simp add: process_entry_def split: prod.splits)

lemma process_entry_metrics:
  "map_of (s_field_metrics (process_entry (g, p) s)) name =
     (case map_of FIELD_DEFINITIONS name of
        None \<Rightarrow> map_of (s_field_metrics s) name
      | Some d \<Rightarrow> map_option (field_step d (get_field g name) (get_field p name))
                    (map_of (s_field_metrics s) name))"
  using fold_process_field_metrics[OF distinct_FIELD_DEFINITIONS, of g p "s_field_metrics s" "[]" name]
  by (simp add: process_entry_alt)

lemma process_entry_keys:
  "map fst (s_field_metrics (process_entry (g, p) s)) = map fst (s_field_metrics s)"
  using fold_process_field_keys[of g p FIELD_DEFINITIONS "s_field_metrics s" "[]"]
  by (simp add: process_entry_alt)

lemma process_entry_results:
  "length (s_results (process_entry (g, p) s)) = length (s_results s) + 1"
  by (simp add: process_entry_alt)


lemma calculate_similarity_same_lower:
  "lower gt = lower pred \<Longrightarrow> calculate_similarity gt pred = 1"
  by (simp add: calculate_similarity_def ratio_same)

lemma ner_exact_le_near:
  "exact_match (evaluate_ner_field gt pred) \<le> near_match (evaluate_ner_field gt pred)"
  by (simp add: evaluate_ner_field_def Let_def calculate_similarity_same_lower)

lemma field_step_total: "total (field_step d gt pred m) = total m + 1"
  by (simp add: field_step_def)

lemma field_step_order:
  assumes "evaluation d \<in> {''exact'', ''ner''}" "exact m \<le> near m" "near m \<le> total m"
  shows "exact (field_step d gt pred m) \<le> near (field_step d gt pred m)
       \<and> near (field_step d gt pred m) \<le> total (field_step d gt pred m)"
proof (cases "evaluation d = ''exact''")
  case True
  with assms show ?thesis by (simp add: field_step_def evaluate_exact_field_def Let_def)
next
  case False
  with assms(1) have ner: "evaluation d = ''ner''" by simp
  have "near_match (evaluate_ner_field gt pred) \<le> 1"
    by (simp add: evaluate_ner_field_def Let_def)
  with ner assms(2,3) ner_exact_le_near[of gt pred] show ?thesis
    by (simp add: field_step_def)
qed

lemma map_of_FIELD_DEFINITIONS:
  "(field, d) \<in> set FIELD_DEFINITIONS \<Longrightarrow> map_of FIELD_DEFINITIONS field = Some d"
  using distinct_FIELD_DEFINITIONS by simp

lemma metrics_inv_init: "metrics_inv 0 (s_field_metrics (init_state gt pred))"
  by (simp add: metrics_inv_def init_state_def FIELD_DEFINITIONS_def)

lemma metrics_inv_step:
  assumes "metrics_inv n (s_field_metrics s)"
  shows "metrics_inv (Suc n) (s_field_metrics (process_entry z s))"
  unfolding metrics_inv_def
proof (intro ballI, clarify)
  fix field d assume fd: "(field, d) \<in> set FIELD_DEFINITIONS"
  obtain g p where z: "z = (g, p)" by (cases z)
  from assms fd obtain m where m: "map_of (s_field_metrics s) field = Some m" "total m = int n"
    "evaluation d \<in> {''exact'', ''ner''} \<longrightarrow> exact m \<le> near m \<and> near m \<le> total m"
    by (auto simp: metrics_inv_def)
  let ?m' = "field_step d (get_field g field) (get_field p field) m"
  have "map_of (s_field_metrics (process_entry z s)) field = Some ?m'"
    by (simp add: z process_entry_metrics map_of_FIELD_DEFINITIONS[OF fd] m(1))
  moreover have "total ?m' = int (Suc n)" using m(2) by (simp add: field_step_total)
  moreover have "evaluation d \<in> {''exact'', ''ner''} \<longrightarrow> exact ?m' \<le> near ?m' \<and> near ?m' \<le> total ?m'"
    using m(3) field_step_order by blast
  ultimately show "\<exists>m. map_of (s_field_metrics (process_entry z s)) field = Some m \<and>
              total m = int (Suc n) \<and>
              (evaluation d \<in> {''exact'', ''ner''} \<longrightarrow> exact m \<le> near m \<and> near m \<le> total m)"
    by blast
qed

lemma metrics_inv_fold:
  "metrics_inv n (s_field_metrics s) \<Longrightarrow>
     metrics_inv (n + length zs) (s_field_metrics (fold process_entry zs s))"
proof (induction zs arbitrary: n s)
  case Nil
  then show ?case by simp
next
  case (Cons z zs)
  from Cons.IH[OF metrics_inv_step[OF Cons.prems, of z]] show ?case by simp
qed

lemma fold_process_entry_keys:
  "map fst (s_field_metrics (fold process_entry zs s)) = map fst (s_field_metrics s)"
proof (induction zs arbitrary: s)
  case Nil
  show ?case by simp
next
  case (Cons z zs)
  obtain g p where z: "z = (g, p)" by (cases z)
  show ?case using Cons.IH[of "process_entry z s"] process_entry_keys[of g p s] by (simp add: z)
qed

lemma fold_process_entry_results:
  "length (s_results (fold process_entry zs s)) = length (s_results s) + length zs"
proof (induction zs arbitrary: s)
  case Nil
  show ?case by simp
next
  case (Cons z zs)
  obtain g p where z: "z = (g, p)" by (cases z)
  show ?case using Cons.IH[of "process_entry z s"] process_entry_results[of g p s] by (simp add: z)
qed


text \<open>The loop body reads the two locals only, never the parameters.\<close>

lemma process_entry_frame:
  "process_entry z (s\<lparr>s_ground_truth := a, s_predictions := b\<rparr>)
     = (process_entry z s)\<lparr>s_ground_truth := a, s_predictions := b\<rparr>"
  by (cases z) (simp add: process_entry_alt)

lemma fold_process_entry_frame:
  "fold process_entry zs (s\<lparr>s_ground_truth := a, s_predictions := b\<rparr>)
     = (fold process_entry zs s)\<lparr>s_ground_truth := a, s_predictions := b\<rparr>"
  by (induction zs arbitrary: s) (simp_all add: process_entry_frame)

lemma zip_take_min: "zip (take (min (length xs) (length ys)) xs) (take (min (length xs) (length ys)) ys) = zip xs ys"
  by (simp add: take_zip [symmetric])

lemma evaluate_dataset_state_take:
  "evaluate_dataset_state gt pred =
     (evaluate_dataset_state (take (min (length gt) (length pred)) gt)
        (take (min (length gt) (length pred)) pred))\<lparr>s_ground_truth := gt, s_predictions := pred\<rparr>"
proof -
  let ?n = "min (length gt) (length pred)"
  let ?s = "init_state (take ?n gt) (take ?n pred)"
  have i: "init_state gt pred = ?s\<lparr>s_ground_truth := gt, s_predictions := pred\<rparr>"
    by (simp add: init_state_def)
  have "evaluate_dataset_state gt pred = fold process_entry (zip gt pred) (init_state gt pred)"
    by (simp add: evaluate_dataset_state_def main_loop_def init_state_def)
  also have "\<dots> = (fold process_entry (zip gt pred) ?s)\<lparr>s_ground_truth := gt, s_predictions := pred\<rparr>"
    by (simp only: i fold_process_entry_frame)
  also have "fold process_entry (zip gt pred) ?s = evaluate_dataset_state (take ?n gt) (take ?n pred)"
    using zip_take_min[of gt pred]
    by (simp add: evaluate_dataset_state_def main_loop_def init_state_def)
  finally show ?thesis .
qed

lemma aggregate_loop_Inr:
  assumes "aggregate_loop fm acc = Inr out"
  shows "out = acc @ map (\<lambda>(field, m). (field, aggregate_of (the (map_of FIELD_DEFINITIONS field)) m)) fm"
  using assms
proof (induction fm arbitrary: acc)
  case Nil
  then show ?case by simp
next
  case (Cons fmh rest)
  obtain field m where h: "fmh = (field, m)" by (cases fmh)
  from Cons.prems obtain d where d: "map_of FIELD_DEFINITIONS field = Some d"
    by (auto simp: h split: option.splits)
  from Cons.prems d have nz: "total m \<noteq> 0"
    by (auto simp: h py_div_def Let_def split: if_splits)
  from Cons.prems d nz
  have "aggregate_loop rest (acc @ [(field, aggregate_of d m)]) = Inr out"
    by (auto simp: h py_div_def Let_def aggregate_of_def split: if_splits)
  from Cons.IH[OF this] d show ?case by (simp add: h)
qed

lemma aggregate_loop_zero_total:
  assumes "map_of FIELD_DEFINITIONS field \<noteq> None" "total m = 0"
  shows "aggregate_loop ((field, m) # rest) acc = Inl ZeroDivisionError"
  using assms by (auto simp: py_div_def Let_def)

lemma map_of_map_keyed:
  "map_of (map (\<lambda>(k, v). (k, g k v)) xs) k = map_option (g k) (map_of xs k)"
  by (induction xs) auto

lemma evaluate_dataset_Inr:
  assumes "evaluate_dataset gt pred = Inr rep"
  shows "individual_results rep = s_results (evaluate_dataset_state gt pred)"
    and "aggregate_results rep =
           map (\<lambda>(field, m). (field, aggregate_of (the (map_of FIELD_DEFINITIONS field)) m))
             (s_field_metrics (evaluate_dataset_state gt pred))"
proof -
  from assms obtain agg where
    agg: "aggregate_loop (s_field_metrics (evaluate_dataset_state gt pred)) [] = Inr agg"
    and rep: "rep = \<lparr>individual_results = s_results (evaluate_dataset_state gt pred),
                     aggregate_results = agg\<rparr>"
    by (auto simp: evaluate_dataset_def Let_def split: sum.splits)
  from rep show "individual_results rep = s_results (evaluate_dataset_state gt pred)" by simp
  from aggregate_loop_Inr[OF agg] rep
  show "aggregate_results rep =
           map (\<lambda>(field, m). (field, aggregate_of (the (map_of FIELD_DEFINITIONS field)) m))
             (s_field_metrics (evaluate_dataset_state gt pred))" by simp
qed

lemma evaluate_dataset_state_metrics_inv:
  "metrics_inv (min (length gt) (length pred)) (s_field_metrics (evaluate_dataset_state gt pred))"
  using metrics_inv_fold[OF metrics_inv_init, where zs = "zip gt pred" and gt1 = gt and pred1 = pred]
  by (simp add: evaluate_dataset_state_def main_loop_def init_state_def)

lemma evaluate_dataset_state_results:
  "length (s_results (evaluate_dataset_state gt pred)) = min (length gt) (length pred)"
  using fold_process_entry_results[of "zip gt pred" "init_state gt pred"]
  by (simp add: evaluate_dataset_state_def main_loop_def init_state_def)

lemma evaluate_dataset_empty:
  assumes "min (length gt) (length pred) = 0"
  shows "evaluate_dataset gt pred = Inl ZeroDivisionError"
proof -
  from assms have z: "zip gt pred = []" by (cases gt; cases pred) auto
  have "evaluate_dataset_state gt pred = fold process_entry (zip gt pred) (init_state gt pred)"
    by (simp add: evaluate_dataset_state_def main_loop_def init_state_def)
  also have "\<dots> = init_state gt pred" by (simp only: z fold.simps id_apply)
  finally have "s_field_metrics (evaluate_dataset_state gt pred)
               = map (\<lambda>(field, definition). (field, \<lparr>exact = 0, near = 0, total = 0\<rparr>)) FIELD_DEFINITIONS"
    by (simp add: init_state_def)
  then show ?thesis
    by (simp add: evaluate_dataset_def FIELD_DEFINITIONS_def py_div_def)
qed

lemma aggregate_loop_succeeds:
  assumes "\<forall>(field, m) \<in> set fm. map_of FIELD_DEFINITIONS field \<noteq> None \<and> total m \<noteq> 0"
  shows "\<exists>out. aggregate_loop fm acc = Inr out"
  using assms
proof (induction fm arbitrary: acc)
  case Nil
  show ?case by simp
next
  case (Cons fmh rest)
  obtain field m where h: "fmh = (field, m)" by (cases fmh)
  from Cons.prems obtain d where d: "map_of FIELD_DEFINITIONS field = Some d" and nz: "total m \<noteq> 0"
    by (auto simp: h)
  have rest: "\<forall>(field, m) \<in> set rest. map_of FIELD_DEFINITIONS field \<noteq> None \<and> total m \<noteq> 0"
    using Cons.prems by simp
  show ?case
  proof (cases "evaluation d \<in> set [''exact'', ''ner'']")
    case True
    with Cons.IH[OF rest] d nz show ?thesis by (simp add: h py_div_def Let_def)
  next
    case False
    with Cons.IH[OF rest] d nz show ?thesis by (simp add: h py_div_def Let_def)
  qed
qed

text \<open>
  \<open>field_metrics\<close> keeps the keys of \<open>FIELD_DEFINITIONS\<close>, in their order: no update of an
  accumulator meets a missing key.
\<close>

lemma field_metrics_keys:
  "map fst (s_field_metrics (evaluate_dataset_state gt pred)) = map fst FIELD_DEFINITIONS"
  using fold_process_entry_keys[of "zip gt pred" "init_state gt pred"]
  by (simp add: evaluate_dataset_state_def main_loop_def init_state_def comp_def case_prod_unfold)

lemma state_metrics_entry:
  assumes "(field, m) \<in> set (s_field_metrics (evaluate_dataset_state gt pred))"
  shows "map_of FIELD_DEFINITIONS field \<noteq> None \<and> total m = int (min (length gt) (length pred))"
proof -
  let ?fm = "s_field_metrics (evaluate_dataset_state gt pred)"
  have keys: "map fst ?fm = map fst FIELD_DEFINITIONS" by (rule field_metrics_keys)
  then have dist: "distinct (map fst ?fm)" using distinct_FIELD_DEFINITIONS by simp
  from assms have "field \<in> set (map fst ?fm)" by force
  with keys have "field \<in> fst ` set FIELD_DEFINITIONS" by simp
  then obtain d where d: "(field, d) \<in> set FIELD_DEFINITIONS" by auto
  with evaluate_dataset_state_metrics_inv[of gt pred] obtain m' where
    "map_of ?fm field = Some m'" "total m' = int (min (length gt) (length pred))"
    by (auto simp: metrics_inv_def)
  moreover have "map_of ?fm field = Some m" using dist assms by simp
  ultimately show ?thesis using map_of_FIELD_DEFINITIONS[OF d] by simp
qed

lemma evaluate_dataset_succeeds:
  assumes "0 < min (length gt) (length pred)"
  shows "\<exists>rep. evaluate_dataset gt pred = Inr rep"
proof -
  have "\<forall>(field, m) \<in> set (s_field_metrics (evaluate_dataset_state gt pred)).
          map_of FIELD_DEFINITIONS field \<noteq> None \<and> total m \<noteq> 0"
  proof
    fix x assume x: "x \<in> set (s_field_metrics (evaluate_dataset_state gt pred))"
    obtain field m where "x = (field, m)" by (cases x)
    with state_metrics_entry[of field m gt pred] x assms
    show "case x of (field, m) \<Rightarrow> map_of FIELD_DEFINITIONS field \<noteq> None \<and> total m \<noteq> 0"
      by auto
  qed
  from aggregate_loop_succeeds[OF this, of "[]"] show ?thesis
    by (auto simp: evaluate_dataset_def Let_def)
qed

lemma sum_list_map2_zero_left:
  "\<forall>x\<in>set xs. x = (0::real) \<Longrightarrow> sum_list (map2 (*) xs ys) = 0"
  by (induction xs arbitrary: ys) (auto simp: zip_Cons1 split: list.splits)

lemma sum_list_map2_zero_right:
  "\<forall>y\<in>set ys. y = (0::real) \<Longrightarrow> sum_list (map2 (*) xs ys) = 0"
  by (induction ys arbitrary: xs) (auto simp: zip_Cons split: list.splits)

lemma l2_normalize_zero: "\<forall>x\<in>set row. x = 0 \<Longrightarrow> \<forall>x\<in>set (l2_normalize row). x = 0"
  by (auto simp: l2_normalize_def Let_def)

lemma lower_char_idem: "lower_char (lower_char c) = lower_char c"
proof -
  have "lower_char c = c \<or> lower_char c \<in> set ''abcdefghijklmnopqrstuvwxyz''"
    by (auto simp: lower_char_def split: option.splits if_splits)
  moreover have "\<forall>l \<in> set ''abcdefghijklmnopqrstuvwxyz''. lower_char l = l"
    by (simp add: lower_char_def)
  ultimately show ?thesis by auto
qed

lemma lower_idem: "lower (lower s) = lower s"
  by (simp add: lower_def lower_char_idem)

lemma cosine_no_tokens:
  assumes "tokenize text1 = [] \<or> tokenize text2 = []"
  shows "calculate_cosine_similarity text1 text2 = 0"
proof -
  have t: "tokenize (lower text1) = tokenize text1" "tokenize (lower text2) = tokenize text2"
    by (simp_all add: tokenize_def lower_idem)
  show ?thesis
  proof (cases "remdups (tokenize text1 @ tokenize text2) = []")
    case True
    then show ?thesis
      by (simp add: calculate_cosine_similarity_def cosine_try_def fit_transform_def t)
  next
    case False
    let ?v = "remdups (tokenize text1 @ tokenize text2)"
    let ?x = "map real (map (count_list (tokenize text1)) ?v)"
    let ?y = "map real (map (count_list (tokenize text2)) ?v)"
    have "fit_transform [lower text1, lower text2]
            = Inr [map (count_list (tokenize text1)) ?v, map (count_list (tokenize text2)) ?v]"
      using False by (auto simp: fit_transform_def t Let_def)
    then have val: "calculate_cosine_similarity text1 text2
                 = sum_list (map2 (*) (l2_normalize ?x) (l2_normalize ?y))"
      by (simp add: calculate_cosine_similarity_def cosine_try_def cosine_similarity_0_1_def)
    from assms show ?thesis
    proof
      assume "tokenize text1 = []"
      then have "\<forall>x\<in>set ?x. x = 0" by simp
      from sum_list_map2_zero_left[OF l2_normalize_zero[OF this]] val show ?thesis by simp
    next
      assume "tokenize text2 = []"
      then have "\<forall>y\<in>set ?y. y = 0" by simp
      from sum_list_map2_zero_right[OF l2_normalize_zero[OF this]] val show ?thesis by simp
    qed
  qed
qed

lemma lower_Nil_iff: "lower s = [] \<longleftrightarrow> s = []"
  by (simp add: lower_def)

section \<open>The claims\<close>

text \<open>
  Claim C1. For every field whose strategy is exact or ner, the aggregate pass computes
  precision as \<open>exact / total\<close> and recall as \<open>near / total\<close> (both 0 when \<open>total\<close> is 0) from
  the accumulator \<open>m\<close> of the field, and the F1 score as
  \<open>2 * precision * recall / (precision + recall)\<close>, which is 0 when \<open>precision + recall\<close>
  is 0; a report that is returned holds exactly these values for the field.
\<close>

theorem aggregate_precision_recall_f1:
  assumes "(field, d) \<in> set FIELD_DEFINITIONS"
    and "evaluation d = ''exact'' \<or> evaluation d = ''ner''"
    and "map_of (s_field_metrics (evaluate_dataset_state gt pred)) field = Some m"
  shows "precision_of m = (if total m = 0 then 0 else real_of_int (exact m) / real_of_int (total m))
       \<and> recall_of m = (if total m = 0 then 0 else real_of_int (near m) / real_of_int (total m))
       \<and> calculate_f1_score (precision_of m) (recall_of m) =
           (if precision_of m + recall_of m = 0 then 0
            else 2 * precision_of m * recall_of m / (precision_of m + recall_of m))
       \<and> (\<forall>rep. evaluate_dataset gt pred = Inr rep \<longrightarrow>
             map_of (aggregate_results rep) field =
               Some (Match_Metrics (precision_of m) (recall_of m)
                       (calculate_f1_score (precision_of m) (recall_of m))
                       (real_of_int (exact m) / real_of_int (total m))))"
proof -
  from assms(3) have "(field, m) \<in> set (s_field_metrics (evaluate_dataset_state gt pred))"
    by (rule map_of_SomeD)
  from state_metrics_entry[OF this] have nn: "0 \<le> total m" by simp
  have p: "precision_of m = (if total m = 0 then 0 else real_of_int (exact m) / real_of_int (total m))"
    using nn by (simp add: precision_of_def)
  have r: "recall_of m = (if total m = 0 then 0 else real_of_int (near m) / real_of_int (total m))"
    using nn by (simp add: recall_of_def)
  have f: "calculate_f1_score (precision_of m) (recall_of m) =
           (if precision_of m + recall_of m = 0 then 0
            else 2 * precision_of m * recall_of m / (precision_of m + recall_of m))"
    by (simp add: calculate_f1_score_def)
  have a: "map_of (aggregate_results rep) field =
               Some (Match_Metrics (precision_of m) (recall_of m)
                       (calculate_f1_score (precision_of m) (recall_of m))
                       (real_of_int (exact m) / real_of_int (total m)))"
    if "evaluate_dataset gt pred = Inr rep" for rep
    using evaluate_dataset_Inr(2)[OF that] assms map_of_FIELD_DEFINITIONS[OF assms(1)]
    by (auto simp: map_of_map_keyed aggregate_of_def)
  from p r f a show ?thesis by blast
qed

lemma similarity_uniswap: "calculate_similarity ''Uniswap V3.'' ''uniswap v3'' = 20 / 21"
  by code_simp

lemma lower_acme: "lower ''Acme'' = lower ''acme''"
  by code_simp

theorem aggregate_precision_recall_f1_witness:
  "(''Project Name'', \<lparr>field_type = ''text'', is_identifier = True, evaluation = ''ner''\<rparr>)
      \<in> set FIELD_DEFINITIONS
   \<and> map_of (s_field_metrics (evaluate_dataset_state
         [[''Project Name'' \<mapsto> ''Uniswap V3.''], [''Project Name'' \<mapsto> ''Acme'']]
         [[''Project Name'' \<mapsto> ''uniswap v3''], [''Project Name'' \<mapsto> ''acme'']])) ''Project Name''
       = Some \<lparr>exact = 1, near = 2, total = 2\<rparr>
   \<and> (\<exists>rep. evaluate_dataset
         [[''Project Name'' \<mapsto> ''Uniswap V3.''], [''Project Name'' \<mapsto> ''Acme'']]
         [[''Project Name'' \<mapsto> ''uniswap v3''], [''Project Name'' \<mapsto> ''acme'']] = Inr rep
       \<and> map_of (aggregate_results rep) ''Project Name''
            = Some (Match_Metrics (1 / 2) 1 (2 / 3) (1 / 2)))"
proof -
  let ?d = "\<lparr>field_type = ''text'', is_identifier = True, evaluation = ''ner''\<rparr>"
  let ?gt = "[[''Project Name'' \<mapsto> ''Uniswap V3.''], [''Project Name'' \<mapsto> ''Acme'']]"
  let ?pred = "[[''Project Name'' \<mapsto> ''uniswap v3''], [''Project Name'' \<mapsto> ''acme'']]"
  let ?m = "\<lparr>exact = 1, near = 2, total = 2\<rparr>"
  have fd: "(''Project Name'', ?d) \<in> set FIELD_DEFINITIONS"
    by (simp add: FIELD_DEFINITIONS_def)
  have ev: "evaluation ?d = ''exact'' \<or> evaluation ?d = ''ner''" by simp
  have ne: "lower ''Uniswap V3.'' \<noteq> lower ''uniswap v3''" by (simp add: lower_def)
  have m: "map_of (s_field_metrics (evaluate_dataset_state ?gt ?pred)) ''Project Name'' = Some ?m"
    by (simp add: evaluate_dataset_state_def main_loop_def init_state_def process_entry_metrics
        FIELD_DEFINITIONS_def field_step_def evaluate_ner_field_def get_field_def
        similarity_uniswap calculate_similarity_same_lower[OF lower_acme] lower_acme ne)
  obtain rep where rep: "evaluate_dataset ?gt ?pred = Inr rep"
    using evaluate_dataset_succeeds[of ?gt ?pred] by auto
  from aggregate_precision_recall_f1[OF fd ev m] rep
  have "map_of (aggregate_results rep) ''Project Name''
            = Some (Match_Metrics (1 / 2) 1 (2 / 3) (1 / 2))"
    by (simp add: precision_of_def recall_of_def calculate_f1_score_def)
  with fd m rep show ?thesis by blast
qed

text \<open>
  Claim C2. \<open>evaluate_dataset\<close> processes exactly \<open>min(len(ground_truth),
  len(predictions))\<close> record pairs: the verdicts, the counters and the returned value are
  those of the two prefixes of that length, so the records behind the shorter sequence
  contribute nothing; every counter \<open>total\<close> equals that minimum, and so does the length
  of \<open>individual_results\<close> in a report that is returned.
\<close>

theorem evaluate_dataset_shortest_prefix:
  "s_results (evaluate_dataset_state gt pred)
     = s_results (evaluate_dataset_state (take (min (length gt) (length pred)) gt)
                    (take (min (length gt) (length pred)) pred))
   \<and> s_field_metrics (evaluate_dataset_state gt pred)
     = s_field_metrics (evaluate_dataset_state (take (min (length gt) (length pred)) gt)
                          (take (min (length gt) (length pred)) pred))
   \<and> evaluate_dataset gt pred
     = evaluate_dataset (take (min (length gt) (length pred)) gt)
         (take (min (length gt) (length pred)) pred)
   \<and> length (s_results (evaluate_dataset_state gt pred)) = min (length gt) (length pred)
   \<and> (\<forall>(field, m) \<in> set (s_field_metrics (evaluate_dataset_state gt pred)).
         total m = int (min (length gt) (length pred)))
   \<and> (\<forall>rep. evaluate_dataset gt pred = Inr rep \<longrightarrow>
         length (individual_results rep) = min (length gt) (length pred))"
proof -
  let ?n = "min (length gt) (length pred)"
  note st = evaluate_dataset_state_take[of gt pred]
  have r: "s_results (evaluate_dataset_state gt pred)
             = s_results (evaluate_dataset_state (take ?n gt) (take ?n pred))"
    by (subst st) simp
  have f: "s_field_metrics (evaluate_dataset_state gt pred)
             = s_field_metrics (evaluate_dataset_state (take ?n gt) (take ?n pred))"
    by (subst st) simp
  have e: "evaluate_dataset gt pred = evaluate_dataset (take ?n gt) (take ?n pred)"
    unfolding evaluate_dataset_def Let_def r f ..
  have l: "length (s_results (evaluate_dataset_state gt pred)) = ?n"
    by (rule evaluate_dataset_state_results)
  have t: "\<forall>(field, m) \<in> set (s_field_metrics (evaluate_dataset_state gt pred)). total m = int ?n"
    using state_metrics_entry[of _ _ gt pred] by auto
  have i: "\<forall>rep. evaluate_dataset gt pred = Inr rep \<longrightarrow> length (individual_results rep) = ?n"
    using evaluate_dataset_Inr(1) l by metis
  from r f e l t i show ?thesis by blast
qed

theorem evaluate_dataset_shortest_prefix_witness:
  "min (length [[''Project Name'' \<mapsto> ''a''], [''Project Name'' \<mapsto> ''b''],
                [''Project Name'' \<mapsto> ''c''], [''Project Name'' \<mapsto> ''d''],
                [''Project Name'' \<mapsto> ''e'']])
       (length [[''Project Name'' \<mapsto> ''a''], [''Project Name'' \<mapsto> ''x''],
                [''Project Name'' \<mapsto> ''c'']]) = 3
   \<and> (\<exists>rep. evaluate_dataset
          [[''Project Name'' \<mapsto> ''a''], [''Project Name'' \<mapsto> ''b''],
           [''Project Name'' \<mapsto> ''c''], [''Project Name'' \<mapsto> ''d''],
           [''Project Name'' \<mapsto> ''e'']]
          [[''Project Name'' \<mapsto> ''a''], [''Project Name'' \<mapsto> ''x''],
           [''Project Name'' \<mapsto> ''c'']] = Inr rep
        \<and> length (individual_results rep) = 3)
   \<and> (\<exists>m. (''Project Name'', m) \<in> set (s_field_metrics (evaluate_dataset_state
          [[''Project Name'' \<mapsto> ''a''], [''Project Name'' \<mapsto> ''b''],
           [''Project Name'' \<mapsto> ''c''], [''Project Name'' \<mapsto> ''d''],
           [''Project Name'' \<mapsto> ''e'']]
          [[''Project Name'' \<mapsto> ''a''], [''Project Name'' \<mapsto> ''x''],
           [''Project Name'' \<mapsto> ''c'']])) \<and> total m = 3)"
proof -
  let ?gt = "[[''Project Name'' \<mapsto> ''a''], [''Project Name'' \<mapsto> ''b''],
              [''Project Name'' \<mapsto> ''c''], [''Project Name'' \<mapsto> ''d''],
              [''Project Name'' \<mapsto> ''e'']]"
  let ?pred = "[[''Project Name'' \<mapsto> ''a''], [''Project Name'' \<mapsto> ''x''],
                [''Project Name'' \<mapsto> ''c'']]"
  have n: "min (length ?gt) (length ?pred) = 3" by simp
  obtain rep where rep: "evaluate_dataset ?gt ?pred = Inr rep"
    using evaluate_dataset_succeeds[of ?gt ?pred] by auto
  have fd: "(''Project Name'', \<lparr>field_type = ''text'', is_identifier = True, evaluation = ''ner''\<rparr>)
              \<in> set FIELD_DEFINITIONS"
    by (simp add: FIELD_DEFINITIONS_def)
  from evaluate_dataset_state_metrics_inv[of ?gt ?pred] fd
  obtain m where m: "map_of (s_field_metrics (evaluate_dataset_state ?gt ?pred)) ''Project Name'' = Some m"
    unfolding metrics_inv_def by blast
  then have mem: "(''Project Name'', m) \<in> set (s_field_metrics (evaluate_dataset_state ?gt ?pred))"
    by (rule map_of_SomeD)
  note sp = evaluate_dataset_shortest_prefix[of ?gt ?pred]
  from sp rep have "length (individual_results rep) = 3" unfolding n by blast
  moreover from sp mem have "total m = 3" unfolding n by fastforce
  ultimately show ?thesis using n rep mem by blast
qed

text \<open>
  Claim C3. After each record pair, that is, after the first \<open>n\<close> pairs for every \<open>n\<close> up
  to the number of pairs, every field of the schema has an accumulator whose \<open>total\<close> is
  \<open>n\<close>, and for the strategies exact and ner \<open>exact \<le> near \<le> total\<close>.
\<close>

theorem accumulator_invariant:
  assumes "n \<le> min (length gt) (length pred)" and "(field, d) \<in> set FIELD_DEFINITIONS"
  shows "\<exists>m. map_of (s_field_metrics (fold process_entry (take n (zip gt pred)) (init_state gt pred)))
                field = Some m
            \<and> total m = int n
            \<and> (evaluation d = ''exact'' \<or> evaluation d = ''ner''
                 \<longrightarrow> exact m \<le> near m \<and> near m \<le> total m)"
proof -
  have "length (take n (zip gt pred)) = n" using assms(1) by simp
  with metrics_inv_fold[OF metrics_inv_init, where zs = "take n (zip gt pred)" and gt1 = gt and pred1 = pred]
  have "metrics_inv n (s_field_metrics (fold process_entry (take n (zip gt pred)) (init_state gt pred)))"
    by simp
  with assms(2) show ?thesis unfolding metrics_inv_def by fastforce
qed

theorem accumulator_invariant_witness:
  "(1::nat) \<le> min (length [[''Project Name'' \<mapsto> ''Acme''], [''Project Name'' \<mapsto> ''Uniswap'']])
                 (length [[''Project Name'' \<mapsto> ''acme''], [''Project Name'' \<mapsto> ''Sushi'']])
   \<and> (''Project Name'', \<lparr>field_type = ''text'', is_identifier = True, evaluation = ''ner''\<rparr>)
        \<in> set FIELD_DEFINITIONS
   \<and> (\<exists>m. map_of (s_field_metrics (fold process_entry
               (take 1 (zip [[''Project Name'' \<mapsto> ''Acme''], [''Project Name'' \<mapsto> ''Uniswap'']]
                            [[''Project Name'' \<mapsto> ''acme''], [''Project Name'' \<mapsto> ''Sushi'']]))
               (init_state [[''Project Name'' \<mapsto> ''Acme''], [''Project Name'' \<mapsto> ''Uniswap'']]
                           [[''Project Name'' \<mapsto> ''acme''], [''Project Name'' \<mapsto> ''Sushi'']])))
             ''Project Name'' = Some m
          \<and> total m = 1 \<and> exact m \<le> near m \<and> near m \<le> total m)"
proof -
  let ?d = "\<lparr>field_type = ''text'', is_identifier = True, evaluation = ''ner''\<rparr>"
  let ?gt = "[[''Project Name'' \<mapsto> ''Acme''], [''Project Name'' \<mapsto> ''Uniswap'']]"
  let ?pred = "[[''Project Name'' \<mapsto> ''acme''], [''Project Name'' \<mapsto> ''Sushi'']]"
  have n: "(1::nat) \<le> min (length ?gt) (length ?pred)" by simp
  have fd: "(''Project Name'', ?d) \<in> set FIELD_DEFINITIONS"
    by (simp add: FIELD_DEFINITIONS_def)
  from accumulator_invariant[OF n fd] n fd show ?thesis by simp
qed

text \<open>
  Claim C4. The exact comparator returns \<open>exact_match = 1\<close> if the two strings are equal
  after lower-casing and 0 otherwise; the ner comparator returns the same \<open>exact_match\<close>
  and \<open>near_match = 1\<close> exactly when the sequence similarity is greater than 0.9; the
  semantic comparator returns \<open>meets_threshold = 1\<close> exactly when the cosine similarity is
  at least 0.5, in a verdict that has no \<open>exact_match\<close>.
\<close>

theorem comparator_verdicts:
  "evaluate_exact_field gt pred = Exact_Verdict (if lower gt = lower pred then 1 else 0) gt pred
   \<and> evaluate_ner_field gt pred =
       Ner_Verdict (exact_match (evaluate_exact_field gt pred))
         (if calculate_similarity gt pred > 0.9 then 1 else 0)
         (calculate_similarity gt pred) gt pred
   \<and> evaluate_semantic_field gt pred =
       Semantic_Verdict (calculate_cosine_similarity gt pred)
         (if calculate_cosine_similarity gt pred \<ge> 0.5 then 1 else 0) gt pred"
  by (simp add: evaluate_exact_field_def evaluate_ner_field_def evaluate_semantic_field_def)

text \<open>
  The threshold of the ner comparator is strict: nine matching characters out of ten and
  ten give the similarity 0.9, which is not a near match.
\<close>

lemma near_match_at_threshold:
  "calculate_similarity ''abcdefghij'' ''abcdefghiX'' = 0.9
   \<and> near_match (evaluate_ner_field ''abcdefghij'' ''abcdefghiX'') = 0"
proof -
  have "calculate_similarity ''abcdefghij'' ''abcdefghiX'' = 9 / 10" by code_simp
  then show ?thesis by (simp add: evaluate_ner_field_def)
qed

text \<open>
  Claim C5. For every string \<open>s\<close>, the sequence similarity of \<open>s\<close> with itself is 1.0.
\<close>

theorem calculate_similarity_reflexive: "calculate_similarity s s = 1"
  by (simp add: calculate_similarity_def ratio_same)

text \<open>
  Claim C6 says that the sequence similarity is symmetric. It is not: the matcher looks
  for the longest block from the side of its first argument, and \<open>tide\<close> against \<open>diet\<close>
  gives 0.25 while \<open>diet\<close> against \<open>tide\<close> gives 0.5.
\<close>

theorem calculate_similarity_not_symmetric:
  "calculate_similarity ''tide'' ''diet'' = 1 / 4
   \<and> calculate_similarity ''diet'' ''tide'' = 1 / 2
   \<and> calculate_similarity ''tide'' ''diet'' \<noteq> calculate_similarity ''diet'' ''tide''"
proof -
  have a: "calculate_similarity ''tide'' ''diet'' = 1 / 4" by code_simp
  have b: "calculate_similarity ''diet'' ''tide'' = 1 / 2" by code_simp
  from a b show ?thesis by simp
qed

text \<open>
  Claim C6, amended. The two similarities agree when the strings are equal after
  lower-casing, when one of them is empty, or when the two strings have no character in
  common after lower-casing.
\<close>

theorem calculate_similarity_symmetric_cases:
  assumes "lower a = lower b \<or> a = [] \<or> b = [] \<or> set (lower a) \<inter> set (lower b) = {}"
  shows "calculate_similarity a b = calculate_similarity b a"
proof -
  consider "lower a = lower b" | "a = []" | "b = []" | "set (lower a) \<inter> set (lower b) = {}"
    using assms by blast
  then show ?thesis
  proof cases
    case 1
    then show ?thesis by (simp add: calculate_similarity_def ratio_same)
  next
    case 2
    then show ?thesis
      by (simp add: calculate_similarity_def lower_def ratio_empty_a ratio_empty_b)
  next
    case 3
    then show ?thesis
      by (simp add: calculate_similarity_def lower_def ratio_empty_a ratio_empty_b)
  next
    case 4
    then have "set (lower b) \<inter> set (lower a) = {}" by blast
    with 4 show ?thesis
      by (auto simp: calculate_similarity_def ratio_disjoint)
  qed
qed

theorem calculate_similarity_symmetric_cases_witness:
  "(lower ''Acme'' = lower ''aCME'' \<or> ''Acme'' = [] \<or> ''aCME'' = []
      \<or> set (lower ''Acme'') \<inter> set (lower ''aCME'') = {})
   \<and> calculate_similarity ''Acme'' ''aCME'' = calculate_similarity ''aCME'' ''Acme''"
proof -
  have h: "lower ''Acme'' = lower ''aCME'' \<or> ''Acme'' = [] \<or> ''aCME'' = []
      \<or> set (lower ''Acme'') \<inter> set (lower ''aCME'') = {}"
    by (simp add: lower_def lower_char_def)
  from calculate_similarity_symmetric_cases[OF h] h show ?thesis by blast
qed

text \<open>
  Claim C7. The sequence similarity is 1.0 when both strings are empty and 0.0 when
  exactly one of them is empty.
\<close>

theorem calculate_similarity_empty:
  "calculate_similarity [] [] = 1
   \<and> (s \<noteq> [] \<longrightarrow> calculate_similarity s [] = 0 \<and> calculate_similarity [] s = 0)"
  by (simp add: calculate_similarity_def lower_def ratio_empty_a ratio_empty_b)

theorem calculate_similarity_empty_witness:
  "''Acme'' \<noteq> [] \<and> calculate_similarity ''Acme'' [] = 0 \<and> calculate_similarity [] ''Acme'' = 0
   \<and> calculate_similarity [] [] = 1"
  using calculate_similarity_empty[of "''Acme''"] by simp

text \<open>
  Claim C8. \<open>calculate_cosine_similarity\<close> returns a number for every pair of strings:
  an error of the vectorizer is mapped to 0.0, and whenever one of the two strings has
  no token the result is 0.0.
\<close>

theorem cosine_similarity_degenerate:
  "(\<forall>e. cosine_try (lower text1) (lower text2) = Inl e
        \<longrightarrow> calculate_cosine_similarity text1 text2 = 0)
   \<and> (tokenize (lower text1) = [] \<or> tokenize (lower text2) = []
        \<longrightarrow> calculate_cosine_similarity text1 text2 = 0)"
proof -
  have "tokenize (lower text1) = tokenize text1" "tokenize (lower text2) = tokenize text2"
    by (simp_all add: tokenize_def lower_idem)
  then show ?thesis
    using cosine_no_tokens[of text1 text2] by (simp add: calculate_cosine_similarity_def)
qed

theorem cosine_similarity_degenerate_witness:
  "cosine_try (lower ''?!'') (lower '' -- '') = Inl ValueError
   \<and> tokenize (lower ''?!'') = []
   \<and> calculate_cosine_similarity ''?!'' '' -- '' = 0
   \<and> tokenize (lower ''Hi'') \<noteq> [] \<and> tokenize (lower ''...'') = []
   \<and> calculate_cosine_similarity ''Hi'' ''...'' = 0"
proof -
  have t: "tokenize (lower ''?!'') = []" "tokenize (lower '' -- '') = []"
    "tokenize (lower ''...'') = []" "tokenize (lower ''Hi'') = [''hi'']"
    by (simp_all add: tokenize_def lower_def lower_char_def is_word_char_def)
  have lw: "lower (lower ''?!'') = lower ''?!''" "lower (lower '' -- '') = lower '' -- ''"
    by (simp_all add: lower_idem)
  have e: "cosine_try (lower ''?!'') (lower '' -- '') = Inl ValueError"
    using t(1,2) by (simp add: cosine_try_def fit_transform_def tokenize_def lw)
  from cosine_similarity_degenerate[of "''?!''" "'' -- ''"] e
  have a: "calculate_cosine_similarity ''?!'' '' -- '' = 0" by blast
  from cosine_similarity_degenerate[of "''Hi''" "''...''"] t(3)
  have b: "calculate_cosine_similarity ''Hi'' ''...'' = 0" by blast
  from e t a b show ?thesis by simp
qed

text \<open>
  Claim C9. When there is no record pair (one of the two sequences is empty), every
  \<open>total\<close> is 0; \<open>precision\<close> and \<open>recall\<close> are guarded and are 0, but the quotients
  \<open>exact / total\<close> and \<open>near / total\<close> of \<open>exact_match_rate\<close> and
  \<open>semantic_similarity_rate\<close> are not, and \<open>evaluate_dataset\<close> ends with a
  \<open>ZeroDivisionError\<close> instead of a report.
\<close>

theorem evaluate_dataset_empty_raises:
  assumes "min (length gt) (length pred) = 0"
  shows "evaluate_dataset gt pred = Inl ZeroDivisionError
       \<and> (\<forall>(field, m) \<in> set (s_field_metrics (evaluate_dataset_state gt pred)).
             total m = 0 \<and> precision_of m = 0 \<and> recall_of m = 0
             \<and> py_div (exact m) (total m) = Inl ZeroDivisionError
             \<and> py_div (near m) (total m) = Inl ZeroDivisionError)"
proof -
  have "\<forall>(field, m) \<in> set (s_field_metrics (evaluate_dataset_state gt pred)). total m = 0"
    using state_metrics_entry[of _ _ gt pred] assms by auto
  then have "\<forall>(field, m) \<in> set (s_field_metrics (evaluate_dataset_state gt pred)).
             total m = 0 \<and> precision_of m = 0 \<and> recall_of m = 0
             \<and> py_div (exact m) (total m) = Inl ZeroDivisionError
             \<and> py_div (near m) (total m) = Inl ZeroDivisionError"
    by (auto simp: precision_of_def recall_of_def py_div_def)
  with evaluate_dataset_empty[OF assms] show ?thesis by blast
qed

theorem evaluate_dataset_empty_raises_witness:
  "min (length ([] :: entry list)) (length [[''Project Name'' \<mapsto> ''Acme'']]) = 0
   \<and> evaluate_dataset [] [[''Project Name'' \<mapsto> ''Acme'']] = Inl ZeroDivisionError
   \<and> evaluate_dataset [] [] = Inl ZeroDivisionError
   \<and> (''Contract Address'', \<lparr>exact = 0, near = 0, total = 0\<rparr>)
        \<in> set (s_field_metrics (evaluate_dataset_state [] [[''Project Name'' \<mapsto> ''Acme'']]))"
proof -
  let ?pred = "[[''Project Name'' \<mapsto> ''Acme'']]"
  have h: "min (length ([] :: entry list)) (length ?pred) = 0" by simp
  have h0: "min (length ([] :: entry list)) (length ([] :: entry list)) = 0" by simp
  have "(''Contract Address'', \<lparr>exact = 0, near = 0, total = 0\<rparr>)
        \<in> set (s_field_metrics (evaluate_dataset_state [] ?pred))"
    by (simp add: evaluate_dataset_state_def main_loop_def init_state_def FIELD_DEFINITIONS_def)
  with evaluate_dataset_empty_raises[OF h] evaluate_dataset_empty_raises[OF h0] h
  show ?thesis by blast
qed


section \<open>Examples of the specification\<close>

text \<open>
  The concrete cases of section 8 of the specification, evaluated on the model: the exact
  comparator on \<open>ABC\<close>, the ner comparator on \<open>Uniswap V3\<close> against \<open>Uniswap V3 Router\<close>
  (similarity 20/27, below the threshold), and the F1 score for precision 0.8 and recall
  1.0.
\<close>

lemma example_exact_comparator:
  "exact_match (evaluate_exact_field ''ABC'' ''abc'') = 1
   \<and> exact_match (evaluate_exact_field ''ABC'' ''abd'') = 0"
  by (simp add: evaluate_exact_field_def lower_def lower_char_def)

lemma example_ner_comparator:
  "evaluate_ner_field ''Uniswap V3'' ''Uniswap V3 Router''
     = Ner_Verdict 0 0 (20 / 27) ''Uniswap V3'' ''Uniswap V3 Router''"
proof -
  have "calculate_similarity ''Uniswap V3'' ''Uniswap V3 Router'' = 20 / 27" by code_simp
  moreover have "lower ''Uniswap V3'' \<noteq> lower ''Uniswap V3 Router''" by (simp add: lower_def)
  ultimately show ?thesis by (simp add: evaluate_ner_field_def)
qed

lemma example_f1_score:
  "precision_of \<lparr>exact = 8, near = 10, total = 10\<rparr> = 0.8
   \<and> recall_of \<lparr>exact = 8, near = 10, total = 10\<rparr> = 1
   \<and> calculate_f1_score 0.8 1 = 8 / 9
   \<and> calculate_f1_score 0 0 = 0"
  by (simp add: precision_of_def recall_of_def calculate_f1_score_def)

end
